theory Spec2Isabelle
  imports Complex_Main "HOL-Library.Multiset"
begin

section \<open>Options\<close>

text \<open>
  \<open>Waifu2xOptions\<close> with the fields added by \<open>Waifu2xGIFOptions\<close> and
  \<open>Waifu2xVideoOptions\<close>. Every field is optional: \<open>None\<close> is \<open>undefined\<close>.
  Counts (among them \<open>limit\<close> and \<open>parallelFrames\<close>) are natural numbers; \<open>scale\<close>,
  \<open>speed\<close> and \<open>framerate\<close> are finite numbers with fractions, each given as the real
  number that the double stands for.
\<close>

record options =
  noise :: "nat option"
  scale :: "real option"
  mode :: "string option"
  blockSize :: "nat option"
  pngCompression :: "nat option"
  jpgWebpQuality :: "nat option"
  disableGPU :: "bool option"
  forceOpenCL :: "bool option"
  processor :: "nat option"
  threads :: "nat option"
  recursive :: "bool option"
  modelDir :: "string option"
  rename :: "string option"
  waifu2xPath :: "string option"
  limit :: "nat option"
  parallelFrames :: "nat option"
  quality :: "nat option"
  speed :: "real option"
  reverse :: "bool option"
  cumulative :: "bool option"
  framerate :: "real option"
  ffmpegPath :: "string option"

text \<open>The empty object \<open>{}\<close> that replaces a missing \<open>options\<close> argument.\<close>

definition no_options :: options where
  "no_options =
     \<lparr>noise = None, scale = None, mode = None, blockSize = None, pngCompression = None,
      jpgWebpQuality = None, disableGPU = None, forceOpenCL = None, processor = None,
      threads = None, recursive = None, modelDir = None, rename = None, waifu2xPath = None,
      limit = None, parallelFrames = None, quality = None, speed = None, reverse = None,
      cumulative = None, framerate = None, ffmpegPath = None\<rparr>"

text \<open>JavaScript truthiness of an optional count: \<open>undefined\<close> and \<open>0\<close> are falsy.\<close>

definition or_default :: "nat option \<Rightarrow> nat \<Rightarrow> nat" where
  "or_default v d = (case v of None \<Rightarrow> d | Some n \<Rightarrow> if n = 0 then d else n)"

section \<open>Batch groups: the queue built by the scheduler\<close>

text \<open>
  All three schedulers (\<open>upscaleImages\<close>, \<open>upscaleGIF\<close>, \<open>upscaleVideo\<close>) build their
  queue with the same loop:
  \<^verbatim>\<open>while (fileMap.length) queue.push(fileMap.splice(0, options.parallelFrames))\<close>
  \<open>splice(0, P)\<close> removes and returns the first \<open>min P (length xs)\<close> elements. With
  \<open>P = 0\<close> the splice removes nothing, the array never becomes empty and the loop never
  ends: that is the value \<open>None\<close>. (The callers replace a falsy \<open>parallelFrames\<close> by 1
  before the loop.)
\<close>

function splice_queue :: "nat \<Rightarrow> 'a list \<Rightarrow> 'a list list option" where
  "splice_queue P xs =
     (if xs = [] then Some []
      else if P = 0 then None
      else map_option ((#) (take P xs)) (splice_queue P (drop P xs)))"
  by pat_completeness auto
termination
  by (relation "measure (\<lambda>(P, xs). length xs)") auto

declare splice_queue.simps [simp del]

section \<open>The scheduling loop\<close>

text \<open>
  The loop of \<open>upscaleImages\<close> (lines 204 to 213) and of \<open>upscaleGIF\<close> and \<open>upscaleVideo\<close>
  (lines 301 to 309, 406 to 414):
  \<^verbatim>\<open>
  for (let i = 0; i < queue.length; i++) {
      await Promise.all(queue[i].map(async (f) => {
          if (counter >= options.limit) cancel = true        // upscaleImages only
          const ret = await Waifu2x.upscaleImage(f, ...)
          retArray.push(ret)
          const stop = progress ? progress(counter++, total) : false
          if (stop) cancel = true
      }))
      if (cancel) break
  }\<close>
  \<open>map\<close> runs every callback up to its first suspension, in order: the limit test and the
  call of \<open>upscaleImage\<close>, which spawns the converter process and suspends until the process
  exits. So every frame of the group is dispatched before any frame settles. The frames
  then settle in an order chosen by the environment, \<open>settle k g\<close> for group \<open>k\<close>;
  the rest of the callback runs once per settled frame.

  The state of the loop, with a log of what happened to each frame.
\<close>

datatype event =
    Dispatch nat string     \<comment> \<open>group, frame: \<open>upscaleImage\<close> was called on the frame\<close>
  | Settle nat string       \<comment> \<open>group, frame: the call returned and its result was pushed\<close>
  | StopSignal nat string   \<comment> \<open>group, frame: the progress callback returned a truthy value\<close>

record sched =
  cancel :: bool
  counter :: nat
  retArray :: "string list"
  calls :: "(nat \<times> nat) list"   \<comment> \<open>the arguments of every call of the progress callback\<close>
  events :: "event list"

type_synonym progress_cb = "nat \<Rightarrow> nat \<Rightarrow> bool"

text \<open>
  The part of the callback before the suspension. \<open>lmt\<close> is \<open>Some options.limit\<close> in
  \<open>upscaleImages\<close> and \<open>None\<close> in the two loops that have no limit test.
\<close>

definition dispatch :: "nat option \<Rightarrow> nat \<Rightarrow> string \<Rightarrow> sched \<Rightarrow> sched" where
  "dispatch lmt k f s =
     (let s1 = (case lmt of
                  None \<Rightarrow> s
                | Some L \<Rightarrow> if L \<le> counter s then s\<lparr>cancel := True\<rparr> else s)
      in s1\<lparr>events := events s1 @ [Dispatch k f]\<rparr>)"

text \<open>
  The part after the suspension. \<open>out f\<close> is the string pushed for frame \<open>f\<close>: the path
  returned by \<open>upscaleImage\<close>, which resolves with the destination path when the process
  exits, whatever its exit status. \<open>progress(counter++, total)\<close> passes the old counter.
\<close>

definition settled ::
  "progress_cb option \<Rightarrow> nat \<Rightarrow> (string \<Rightarrow> string) \<Rightarrow> nat \<Rightarrow> string \<Rightarrow> sched \<Rightarrow> sched" where
  "settled progress tot out k f s =
     (let s1 = s\<lparr>retArray := retArray s @ [out f], events := events s @ [Settle k f]\<rparr>
      in case progress of
           None \<Rightarrow> s1
         | Some p \<Rightarrow>
             (let stop = p (counter s1) tot;
                  s2 = s1\<lparr>calls := calls s1 @ [(counter s1, tot)],
                          counter := Suc (counter s1)\<rparr>
              in if stop then s2\<lparr>cancel := True, events := events s2 @ [StopSignal k f]\<rparr>
                 else s2))"

definition group_step ::
  "nat option \<Rightarrow> progress_cb option \<Rightarrow> nat \<Rightarrow> (string \<Rightarrow> string) \<Rightarrow>
   (nat \<Rightarrow> string list \<Rightarrow> string list) \<Rightarrow> nat \<Rightarrow> string list \<Rightarrow> sched \<Rightarrow> sched" where
  "group_step lmt progress tot out settle k g s =
     fold (settled progress tot out k) (settle k g) (fold (dispatch lmt k) g s)"

fun run_queue ::
  "nat option \<Rightarrow> progress_cb option \<Rightarrow> nat \<Rightarrow> (string \<Rightarrow> string) \<Rightarrow>
   (nat \<Rightarrow> string list \<Rightarrow> string list) \<Rightarrow> nat \<Rightarrow> string list list \<Rightarrow> sched \<Rightarrow> sched" where
  "run_queue lmt progress tot out settle k [] s = s"
| "run_queue lmt progress tot out settle k (g # gs) s =
     (let s' = group_step lmt progress tot out settle k g s
      in if cancel s' then s' else run_queue lmt progress tot out settle (Suc k) gs s')"

text \<open>
  An environment settles every dispatched frame once: the order in which the frames of a
  group settle is a permutation of the group.
\<close>

definition settles_all :: "(nat \<Rightarrow> string list \<Rightarrow> string list) \<Rightarrow> bool" where
  "settles_all settle = (\<forall>k g. mset (settle k g) = mset g)"

text \<open>The frames on which the work function was called, and those that settled.\<close>

fun dispatched :: "event list \<Rightarrow> string list" where
  "dispatched [] = []"
| "dispatched (Dispatch k f # es) = f # dispatched es"
| "dispatched (e # es) = dispatched es"

fun settled_frames :: "event list \<Rightarrow> string list" where
  "settled_frames [] = []"
| "settled_frames (Settle k f # es) = f # settled_frames es"
| "settled_frames (e # es) = settled_frames es"

text \<open>
  \<open>upscaleImages\<close>, lines 195 to 214, on the list of files found in the source folder.
  A falsy \<open>limit\<close> becomes the number of files and a falsy \<open>parallelFrames\<close> becomes 1;
  \<open>counter\<close> starts at 1; the callback, when there is one, is first called with
  \<open>(0, total)\<close> and its result dropped.
\<close>

definition upscaleImages ::
  "options \<Rightarrow> progress_cb option \<Rightarrow> (string \<Rightarrow> string) \<Rightarrow>
   (nat \<Rightarrow> string list \<Rightarrow> string list) \<Rightarrow> string list \<Rightarrow> sched option" where
  "upscaleImages opts progress out settle fileMap =
     (let lmt = or_default (limit opts) (length fileMap);
          tot = length fileMap;
          P = or_default (parallelFrames opts) 1;
          s0 = \<lparr>cancel = False, counter = 1, retArray = [],
                calls = (case progress of None \<Rightarrow> [] | Some p \<Rightarrow> [(0, tot)]),
                events = []\<rparr>
      in map_option (\<lambda>queue. run_queue (Some lmt) progress tot out settle 0 queue s0)
           (splice_queue P fileMap))"

text \<open>
  The scheduling block of \<open>upscaleGIF\<close>, lines 292 to 312. \<open>options.scale !== 1\<close> holds
  for a missing scale too. \<open>counter\<close> starts at 0 and \<open>progress(counter++, total)\<close> makes it
  1 before the loop when there is a callback. With scale 1 the block is skipped and
  \<open>scaledFrames\<close> is \<open>frameArray\<close> itself. The field \<open>retArray\<close> of the result is
  \<open>scaledFrames\<close>; \<open>out f\<close> is the path in the \<open>upscaled\<close> directory pushed for frame \<open>f\<close>.
\<close>

definition upscaleGIF_schedule ::
  "options \<Rightarrow> progress_cb option \<Rightarrow> (string \<Rightarrow> string) \<Rightarrow>
   (nat \<Rightarrow> string list \<Rightarrow> string list) \<Rightarrow> string list \<Rightarrow> sched option" where
  "upscaleGIF_schedule opts progress out settle frameArray =
     (if scale opts \<noteq> Some 1 then
        (let tot = length frameArray;
             P = or_default (parallelFrames opts) 1;
             s0 = \<lparr>cancel = False,
                   counter = (case progress of None \<Rightarrow> 0 | Some p \<Rightarrow> 1),
                   retArray = [],
                   calls = (case progress of None \<Rightarrow> [] | Some p \<Rightarrow> [(0, tot)]),
                   events = []\<rparr>
         in map_option (\<lambda>queue. run_queue None progress tot out settle 0 queue s0)
              (splice_queue P frameArray))
      else Some \<lparr>cancel = False, counter = 0, retArray = frameArray, calls = [], events = []\<rparr>)"

text \<open>
  The scheduling block of \<open>upscaleVideo\<close>, lines 397 to 418, is the same code (its else
  branch also redirects \<open>upScaleDest\<close> to the directory of the extracted frames).
\<close>

definition upscaleVideo_schedule ::
  "options \<Rightarrow> progress_cb option \<Rightarrow> (string \<Rightarrow> string) \<Rightarrow>
   (nat \<Rightarrow> string list \<Rightarrow> string list) \<Rightarrow> string list \<Rightarrow> sched option" where
  "upscaleVideo_schedule = upscaleGIF_schedule"


text \<open>The group an event belongs to.\<close>

fun group_of :: "event \<Rightarrow> nat" where
  "group_of (Dispatch k f) = k"
| "group_of (Settle k f) = k"
| "group_of (StopSignal k f) = k"

text \<open>Two environments and two callbacks for concrete runs.\<close>

definition in_order :: "nat \<Rightarrow> string list \<Rightarrow> string list" where
  "in_order k g = g"

definition last_first :: "nat \<Rightarrow> string list \<Rightarrow> string list" where
  "last_first k g = rev g"

definition never_stop :: progress_cb where
  "never_stop = (\<lambda>current tot. False)"

definition stop_at :: "nat \<Rightarrow> progress_cb" where
  "stop_at n = (\<lambda>current tot. current = n)"

section \<open>Animated images: frame selection, delays, reversal\<close>

text \<open>
  The numbers of the source are IEEE 754 doubles. A finite double is represented by the
  real number it stands for; the two zeros are not told apart.
\<close>

datatype jsnum = Num real | PosInfinity | NegInfinity | NaN

text \<open>Rounding to the nearest integer, a tie going to the even one.\<close>

definition ties_even :: "real \<Rightarrow> int" where
  "ties_even y =
     (let f = \<lfloor>y\<rfloor>; d = y - of_int f
      in if d < 1 / 2 then f else if 1 / 2 < d then f + 1 else if even f then f else f + 1)"

text \<open>
  The double that an arithmetic operation returns for the exact result \<open>x\<close>: the nearest
  multiple of the unit in the last place, which is \<open>2 ^ (e - 52)\<close> for a result in
  \<open>[2 ^ e, 2 ^ (e + 1))\<close> and \<open>2 ^ (- 1074)\<close> below \<open>2 ^ (- 1022)\<close>; ties go to the
  even multiple; a result that rounds to \<open>2 ^ 1024\<close> or more is an infinity.
\<close>

definition to_double :: "real \<Rightarrow> jsnum" where
  "to_double x =
     (if x = 0 then Num 0
      else (let a = \<bar>x\<bar>;
                e = max \<lfloor>log 2 a\<rfloor> (- 1022);
                ulp = power_int 2 (e - 52);
                r = of_int (ties_even (a / ulp)) * ulp
            in if power_int 2 1024 \<le> r then (if 0 < x then PosInfinity else NegInfinity)
               else Num (if 0 < x then r else - r)))"

text \<open>The operator \<open>/\<close> and \<open>Math.ceil\<close>.\<close>

fun js_div :: "jsnum \<Rightarrow> jsnum \<Rightarrow> jsnum" where
  "js_div (Num a) (Num b) =
     (if b \<noteq> 0 then to_double (a / b)
      else if a = 0 then NaN
      else if 0 < a then PosInfinity
      else NegInfinity)"
| "js_div NaN y = NaN"
| "js_div x NaN = NaN"
| "js_div (Num a) y = Num 0"
| "js_div PosInfinity (Num b) = (if 0 \<le> b then PosInfinity else NegInfinity)"
| "js_div NegInfinity (Num b) = (if 0 \<le> b then NegInfinity else PosInfinity)"
| "js_div x y = NaN"

fun js_ceil :: "jsnum \<Rightarrow> jsnum" where
  "js_ceil (Num x) = Num (of_int \<lceil>x\<rceil>)"
| "js_ceil x = x"

text \<open>
  Lines 272 and 273 of \<open>upscaleGIF\<close>:
  \<^verbatim>\<open>
  const constraint = options.speed > 1 ? frames.length / options.speed : frames.length
  let step = Math.ceil(frames.length / constraint)\<close>
  A missing speed compares false.
\<close>

definition constraint :: "options \<Rightarrow> nat \<Rightarrow> jsnum" where
  "constraint opts n =
     (case speed opts of
        None \<Rightarrow> Num (real n)
      | Some sp \<Rightarrow> if 1 < sp then js_div (Num (real n)) (Num sp) else Num (real n))"

definition frame_step :: "options \<Rightarrow> nat \<Rightarrow> jsnum" where
  "frame_step opts n = js_ceil (js_div (Num (real n)) (constraint opts n))"

text \<open>
  The index as the template string \<open>frame${i}.jpg\<close> prints it: in decimal, most
  significant digit first.
\<close>

definition digit :: "nat \<Rightarrow> char" where
  "digit d = ''0123456789'' ! (d mod 10)"

fun decimal :: "nat \<Rightarrow> string \<Rightarrow> string" where
  "decimal n acc =
     (if 10 \<le> n then decimal (n div 10) (digit n # acc) else digit n # acc)"

declare decimal.simps [simp del]

definition frame_file :: "string \<Rightarrow> nat \<Rightarrow> string" where
  "frame_file frameDest i = frameDest @ ''/frame'' @ decimal i [] @ ''.jpg''"

text \<open>
  \<open>downloadFrames\<close>, lines 276 to 286:
  \<^verbatim>\<open>
  for (let i = 0; i < frames.length; i += step) {
      ...
      frames[i].getImage().pipe(writeStream)
      frameArray.push(`${frameDest}/frame${i}.jpg`)
      delayArray.push(frames[i].frameInfo.delay)
      ...
  }\<close>
  A decoded frame is represented by its delay. First the loop for a step that is a
  positive whole number \<open>k\<close>; the test \<open>0 < k\<close> only makes the function total. (The
  length of an array is below \<open>2 ^ 32\<close>, so the sums \<open>i + k\<close> that stay below the length
  are exact.)
\<close>

function download_loop :: "string \<Rightarrow> nat \<Rightarrow> real list \<Rightarrow> nat \<Rightarrow> (string \<times> real) list" where
  "download_loop frameDest k frames i =
     (if i < length frames \<and> 0 < k
      then (frame_file frameDest i, frames ! i) # download_loop frameDest k frames (i + k)
      else [])"
  by pat_completeness auto
termination
  by (relation "measure (\<lambda>(frameDest, k, frames, i). length frames - i)") auto

declare download_loop.simps [simp del]

text \<open>
  The loop for any value of \<open>step\<close>. Without a frame the body never runs. Otherwise frame
  0 is taken and \<open>i\<close> becomes \<open>step\<close>: the loop ends there when \<open>step\<close> is \<open>NaN\<close>, infinite
  or not below the length; a step of 0 repeats forever, and a negative or fractional
  index below the length reads \<open>undefined\<close> from the array, on which \<open>getImage\<close> raises.
  \<open>None\<close> stands for these runs that do not return.
\<close>

definition downloadFrames :: "string \<Rightarrow> jsnum \<Rightarrow> real list \<Rightarrow> (string \<times> real) list option" where
  "downloadFrames frameDest step frames =
     (if frames = [] then Some []
      else (case step of
              Num k \<Rightarrow>
                if real (length frames) \<le> k then Some [(frame_file frameDest 0, frames ! 0)]
                else if 0 < k \<and> k = of_int \<lfloor>k\<rfloor>
                then Some (download_loop frameDest (nat \<lfloor>k\<rfloor>) frames 0)
                else None
            | PosInfinity \<Rightarrow> Some [(frame_file frameDest 0, frames ! 0)]
            | NaN \<Rightarrow> Some [(frame_file frameDest 0, frames ! 0)]
            | NegInfinity \<Rightarrow> None))"

text \<open>
  Lines 272 to 288: the retained frames and their delays, and the division of line 288,
  \<^verbatim>\<open>if (options.speed < 1) delayArray = delayArray.map((n) => n / options.speed)\<close>
\<close>

definition gif_frames ::
  "options \<Rightarrow> string \<Rightarrow> real list \<Rightarrow> (string list \<times> jsnum list) option" where
  "gif_frames opts frameDest frames =
     (let step = frame_step opts (length frames)
      in case downloadFrames frameDest step frames of
           None \<Rightarrow> None
         | Some kept \<Rightarrow>
             (let frameArray = map fst kept;
                  delayArray = map snd kept
              in Some (frameArray,
                       case speed opts of
                         None \<Rightarrow> map Num delayArray
                       | Some sp \<Rightarrow>
                           if sp < 1 then map (\<lambda>n. js_div (Num n) (Num sp)) delayArray
                           else map Num delayArray)))"

text \<open>
  Lines 313 to 316:
  \<^verbatim>\<open>
  if (options.reverse) {
      scaledFrames = scaledFrames.reverse()
      delayArray = delayArray.reverse()
  }\<close>
\<close>

definition reverse_step :: "options \<Rightarrow> 'a list \<times> 'b list \<Rightarrow> 'a list \<times> 'b list" where
  "reverse_step opts fd =
     (if reverse opts = Some True then (rev (fst fd), rev (snd fd)) else fd)"

section \<open>The single-image adapter\<close>

text \<open>
  \<open>upscaleImage\<close> writes to the options object it is given (lines 123, 147 and 148):
  a missing \<open>rename\<close> becomes \<open>2x\<close>, and a non-empty \<open>modelDir\<close> loses a trailing slash and,
  when relative, is joined to the package directory. \<open>isAbsolute\<close> stands for
  \<open>path.isAbsolute\<close> and \<open>joinLocal\<close> for \<open>path.join(local, _)\<close>.
\<close>

definition upscaleImage_options ::
  "(string \<Rightarrow> bool) \<Rightarrow> (string \<Rightarrow> string) \<Rightarrow> options \<Rightarrow> options" where
  "upscaleImage_options isAbsolute joinLocal opts =
     (let o1 = (if rename opts = None then opts\<lparr>rename := Some ''2x''\<rparr> else opts)
      in case modelDir o1 of
           None \<Rightarrow> o1
         | Some m \<Rightarrow>
             if m = [] then o1
             else (let m1 = (if last m = CHR ''/'' then butlast m else m);
                       m2 = (if \<not> isAbsolute m1 then joinLocal m1 else m1)
                   in o1\<lparr>modelDir := Some m2\<rparr>))"

text \<open>
  The command line, lines 135 to 150, as the list of its arguments after the program name.
  A flag is added when its option is truthy: not missing, not 0, not the empty string,
  not \<open>false\<close>.
\<close>

datatype arg = Flag string | NumArg string real | StrArg string string

definition num_flag :: "string \<Rightarrow> nat option \<Rightarrow> arg list" where
  "num_flag name v =
     (case v of None \<Rightarrow> [] | Some n \<Rightarrow> if n = 0 then [] else [NumArg name (real n)])"

definition bool_flag :: "string \<Rightarrow> bool option \<Rightarrow> arg list" where
  "bool_flag name v = (if v = Some True then [Flag name] else [])"

definition upscaleImage_command :: "options \<Rightarrow> string \<Rightarrow> string \<Rightarrow> arg list" where
  "upscaleImage_command opts sourcePath destPath =
     [StrArg ''-i'' sourcePath, StrArg ''-o'' destPath, Flag ''-s'']
     @ num_flag ''--noise-level'' (noise opts)
     @ (case scale opts of
          None \<Rightarrow> []
        | Some r \<Rightarrow> if r = 0 then [] else [NumArg ''--scale-ratio'' r])
     @ (case mode opts of
          None \<Rightarrow> []
        | Some m \<Rightarrow> if m = [] then [] else [StrArg ''-m'' m])
     @ num_flag ''-c'' (pngCompression opts)
     @ num_flag ''-q'' (jpgWebpQuality opts)
     @ num_flag ''--block-size'' (blockSize opts)
     @ bool_flag ''--disable-gpu'' (disableGPU opts)
     @ bool_flag ''--force-OpenCL'' (forceOpenCL opts)
     @ num_flag ''-p'' (processor opts)
     @ num_flag ''-j'' (threads opts)
     @ (case modelDir opts of
          None \<Rightarrow> []
        | Some m \<Rightarrow> if m = [] then [] else [StrArg ''--model-dir'' m])"

text \<open>
  \<open>upscaleImage\<close>, lines 120 to 170, once the source and destination paths are resolved:
  the converter processes it starts (\<open>child_process.exec(command)\<close> on line 151 runs on
  every call), and the options object as the call leaves it. It returns the destination
  path when the process exits.
\<close>

definition upscaleImage ::
  "(string \<Rightarrow> bool) \<Rightarrow> (string \<Rightarrow> string) \<Rightarrow> options \<Rightarrow> string \<Rightarrow> string \<Rightarrow>
   arg list list \<times> options" where
  "upscaleImage isAbsolute joinLocal opts sourcePath destPath =
     (let opts' = upscaleImage_options isAbsolute joinLocal opts
      in ([upscaleImage_command opts' sourcePath destPath], opts'))"

section \<open>What the pipeline operations write to the caller's options\<close>

text \<open>
  The operations assign to fields of the object they receive. \<open>k\<close> is the number of frames
  the scheduler dispatched: each is one call of \<open>upscaleImage\<close> on the same object.

  \<open>upscaleImages\<close>: lines 195 and 201, then the calls of line 207.
\<close>

definition upscaleImages_options ::
  "(string \<Rightarrow> bool) \<Rightarrow> (string \<Rightarrow> string) \<Rightarrow> nat \<Rightarrow> nat \<Rightarrow> options \<Rightarrow> options" where
  "upscaleImages_options isAbsolute joinLocal nfiles k opts =
     (upscaleImage_options isAbsolute joinLocal ^^ k)
       (opts\<lparr>limit := Some (or_default (limit opts) nfiles),
             parallelFrames := Some (or_default (parallelFrames opts) 1)\<rparr>)"

text \<open>\<open>upscaleGIF\<close>: lines 262, 291 and 298, then the calls of line 303.\<close>

definition upscaleGIF_options ::
  "(string \<Rightarrow> bool) \<Rightarrow> (string \<Rightarrow> string) \<Rightarrow> nat \<Rightarrow> options \<Rightarrow> options" where
  "upscaleGIF_options isAbsolute joinLocal k opts =
     (let o1 = (if cumulative opts = Some True then opts else opts\<lparr>cumulative := Some False\<rparr>);
          o2 = o1\<lparr>rename := Some []\<rparr>
      in if scale o2 \<noteq> Some 1
         then (upscaleImage_options isAbsolute joinLocal ^^ k)
                (o2\<lparr>parallelFrames := Some (or_default (parallelFrames o2) 1)\<rparr>)
         else o2)"

text \<open>
  \<open>upscaleVideo\<close>: lines 375, 395 and 403, the calls of line 408, then lines 422 and 423.
  \<open>probed\<close> is the frame rate read from the source by \<open>parseFramerate\<close>.
\<close>

definition upscaleVideo_options ::
  "(string \<Rightarrow> bool) \<Rightarrow> (string \<Rightarrow> string) \<Rightarrow> real \<Rightarrow> nat \<Rightarrow> options \<Rightarrow> options" where
  "upscaleVideo_options isAbsolute joinLocal probed k opts =
     (let o1 = (case framerate opts of
                  None \<Rightarrow> opts\<lparr>framerate := Some probed\<rparr>
                | Some r \<Rightarrow> if r = 0 then opts\<lparr>framerate := Some probed\<rparr> else opts);
          o2 = o1\<lparr>rename := Some []\<rparr>;
          o3 = (if scale o2 \<noteq> Some 1
                then (upscaleImage_options isAbsolute joinLocal ^^ k)
                       (o2\<lparr>parallelFrames := Some (or_default (parallelFrames o2) 1)\<rparr>)
                else o2);
          o4 = (case speed o3 of
                  None \<Rightarrow> o3\<lparr>speed := Some 1\<rparr>
                | Some sp \<Rightarrow> if sp = 0 then o3\<lparr>speed := Some 1\<rparr> else o3)
      in if reverse o4 = Some True then o4 else o4\<lparr>reverse := Some False\<rparr>)"

text \<open>Stand-ins for the two path functions in concrete runs: every path counts as absolute.\<close>

definition all_absolute :: "string \<Rightarrow> bool" where
  "all_absolute p = True"

definition join_unused :: "string \<Rightarrow> string" where
  "join_unused p = p"



section \<open>The workspace directory\<close>

text \<open>
  The file system that \<open>removeDirectory\<close> works on: a tree of named entries, \<open>root\<close> being
  the entries of the root directory, and the working directory of the process as the
  list of names leading to it. There are no symbolic links.
\<close>

datatype node = File string | Dir string "node list"

record filesystem =
  root :: "node list"
  cwd :: "string list"

text \<open>What is found at a list of names, below a directory with the entries \<open>es\<close>.\<close>

datatype found = Missing | IsFile | IsDir "node list"

fun find_in :: "string list \<Rightarrow> node list \<Rightarrow> found" where
  "find_in [] es = IsDir es"
| "find_in (c # cs) [] = Missing"
| "find_in (c # cs) (File n # es) =
     (if n = c then (if cs = [] then IsFile else Missing) else find_in (c # cs) es)"
| "find_in (c # cs) (Dir n ds # es) =
     (if n = c then find_in cs ds else find_in (c # cs) es)"

text \<open>
  Path resolution as the operating system does it (POSIX). The path is cut at the
  slashes. Each component is looked up in the directory reached so far, which has to
  exist and be a directory: an empty component and \<open>.\<close> stay there, \<open>..\<close> goes to its
  parent, a name goes to the entry of that name. A path that starts with a slash starts
  from the root, any other from the working directory; the empty path resolves to nothing.
\<close>

fun split_path :: "string \<Rightarrow> string list" where
  "split_path [] = [[]]"
| "split_path (c # cs) =
     (if c = CHR ''/'' then [] # split_path cs
      else (case split_path cs of [] \<Rightarrow> [[c]] | x # xs \<Rightarrow> (c # x) # xs))"

fun walk :: "node list \<Rightarrow> string list \<Rightarrow> string list \<Rightarrow> string list option" where
  "walk r [] p = Some p"
| "walk r (c # cs) p =
     (case find_in p r of
        IsDir es \<Rightarrow>
          if c = [] \<or> c = ''.'' then walk r cs p
          else if c = ''..'' then walk r cs (butlast p)
          else walk r cs (p @ [c])
      | IsFile \<Rightarrow> None
      | Missing \<Rightarrow> None)"

definition resolve :: "filesystem \<Rightarrow> string \<Rightarrow> string list option" where
  "resolve fs path =
     (if path = [] then None
      else walk (root fs) (split_path path) (if hd path = CHR ''/'' then [] else cwd fs))"

text \<open>
  \<open>rmdirSync\<close> refuses a path whose last component is \<open>.\<close> or \<open>..\<close>, trailing slashes
  aside, and it refuses the root directory.
\<close>

definition last_component :: "string \<Rightarrow> string" where
  "last_component path =
     (case filter (\<lambda>c. c \<noteq> []) (split_path path) of [] \<Rightarrow> [] | c # cs \<Rightarrow> last (c # cs))"

definition rmdir_refused :: "string \<Rightarrow> bool" where
  "rmdir_refused path = (last_component path = ''.'' \<or> last_component path = ''..'')"

text \<open>
  The body of \<open>removeDirectory\<close> on one entry of the directory being emptied (lines 483
  to 495): a file is unlinked; a directory is emptied by the recursive call and then
  removed by \<open>rmdirSync\<close>, whose failure on a directory that is not empty is caught and
  logged. The result is what the entry leaves behind in its parent. (The recursive call
  is made on \<open>path.join(dir, entry)\<close>, which is never one of the two guarded strings and
  does not end in \<open>.\<close> or \<open>..\<close>.)
\<close>

fun purge :: "node \<Rightarrow> node list" where
  "purge (File n) = []"
| "purge (Dir n es) =
     (let rest = concat (map purge es) in if rest = [] then [] else [Dir n rest])"

text \<open>
  The entries of a directory after \<open>removeDirectory\<close> ran on the directory at the names
  \<open>p\<close> below it. At the end of the names the entries are purged; the emptied directory
  itself is then removed from its parent unless \<open>rmdirSync\<close> refuses (\<open>keep\<close>), in which
  case the failure is logged and the directory stays. The root directory always stays.
\<close>

fun remove_in :: "bool \<Rightarrow> string list \<Rightarrow> node list \<Rightarrow> node list" where
  "remove_in keep [] es = concat (map purge es)"
| "remove_in keep (c # cs) [] = []"
| "remove_in keep (c # cs) (File n # es) = File n # remove_in keep (c # cs) es"
| "remove_in keep (c # cs) (Dir n ds # es) =
     (if n = c
      then (let ds' = remove_in keep cs ds
            in if cs = [] \<and> ds' = [] \<and> \<not> keep then es else Dir n ds' # es)
      else Dir n ds # remove_in keep (c # cs) es)"

datatype fs_error = ENOTDIR

text \<open>
  \<open>removeDirectory\<close>, lines 480 to 497. The guard compares the argument itself with the
  two strings. \<open>existsSync\<close> is false for a path that does not resolve; \<open>readdirSync\<close> on
  a file raises.
\<close>

definition removeDirectory :: "string \<Rightarrow> filesystem \<Rightarrow> fs_error + filesystem" where
  "removeDirectory dir fs =
     (if dir = ''/'' \<or> dir = ''./'' then Inr fs
      else (case resolve fs dir of
              None \<Rightarrow> Inr fs
            | Some p \<Rightarrow>
                (case find_in p (root fs) of
                   Missing \<Rightarrow> Inr fs
                 | IsFile \<Rightarrow> Inl ENOTDIR
                 | IsDir es \<Rightarrow>
                     Inr (fs\<lparr>root := remove_in (rmdir_refused dir) p (root fs)\<rparr>))))"


section \<open>The exit paths of a job\<close>

text \<open>
  The calls of \<open>upscaleGIF\<close> and \<open>upscaleVideo\<close> that can raise, in the order of the code.
  Neither function has a \<open>try\<close> block around them, so an exception raised by one of them
  leaves the function at that point.
  \<^item> \<open>Decode\<close>: \<open>await gifFrames(...)\<close>, line 263 (unreadable or malformed source).
  \<^item> \<open>ClearStale\<close>: \<open>removeDirectory(frameDest)\<close> on lines 270 and 377, called when the
    path exists (it raises when the path is a file, or when an entry cannot be unlinked).
  \<^item> \<open>MakeWorkspace\<close>: \<open>fs.mkdirSync(frameDest, ...)\<close>, lines 271 and 378.
  \<^item> \<open>Download\<close>: \<open>await downloadFrames(frames)\<close>, line 287; \<open>awaitStream\<close> rejects on a
    stream error (line 254).
  \<^item> \<open>MakeUpscaled\<close>: \<open>fs.mkdirSync(upScaleDest, ...)\<close>, lines 290 and 394.
  \<^item> \<open>Upscale\<close>: a call of \<open>upscaleImage\<close> in the scheduler, lines 303 and 408
    (\<open>mkdirSync\<close> or \<open>exec\<close> raising); \<open>Promise.all\<close> rejects with it.
  \<^item> \<open>Encode\<close>: \<open>await Waifu2x.encodeGIF(...)\<close>, line 317 (\<open>imageSize(files[0])\<close> raises
    inside the promise executor, for instance when the converter wrote no output file).
  \<^item> \<open>Release\<close>: \<open>removeDirectory(frameDest)\<close> on lines 318 and 454 (an entry cannot be
    unlinked).
  \<^item> \<open>Probe\<close>: \<open>parseDuration\<close> and \<open>parseFramerate\<close> on the source, lines 374 and 375
    (\<open>str.match(...)[0]\<close> raises when the pattern is not found).
  \<^item> \<open>Reprobe\<close>: \<open>parseDuration(tempDest)\<close>, line 445.
\<close>

datatype stage =
    Decode | ClearStale | MakeWorkspace | Download | MakeUpscaled | Upscale | Encode
  | Release | Probe | Reprobe







text \<open>Runs in which exactly one call raises, or none.\<close>

definition only :: "stage \<Rightarrow> stage \<Rightarrow> bool" where
  "only st x = (x = st)"



section \<open>Properties of the queue\<close>

lemma splice_queue_Nil [simp]: "splice_queue P [] = Some []"
  by (simp add: splice_queue.simps)

lemma splice_queue_zero: "xs \<noteq> [] \<Longrightarrow> splice_queue 0 xs = None"
  by (simp add: splice_queue.simps)

lemma splice_queue_step:
  "0 < P \<Longrightarrow> xs \<noteq> [] \<Longrightarrow>
   splice_queue P xs = map_option ((#) (take P xs)) (splice_queue P (drop P xs))"
  by (subst splice_queue.simps) simp

lemma splice_queue_total: "0 < P \<Longrightarrow> \<exists>q. splice_queue P xs = Some q"
proof (induction P xs rule: splice_queue.induct)
  case (1 P xs)
  show ?case
  proof (cases "xs = []")
    case True
    then show ?thesis by simp
  next
    case False
    with 1 obtain q where "splice_queue P (drop P xs) = Some q" by auto
    with False 1(2) show ?thesis by (simp add: splice_queue_step)
  qed
qed

lemma splice_queue_concat: "splice_queue P xs = Some q \<Longrightarrow> concat q = xs"
proof (induction P xs arbitrary: q rule: splice_queue.induct)
  case (1 P xs)
  show ?case
  proof (cases "xs = []")
    case True
    with 1(2) show ?thesis by simp
  next
    case False
    with 1(2) have P: "0 < P" by (cases "P = 0") (simp_all add: splice_queue_zero)
    with False 1(2) obtain q' where q': "splice_queue P (drop P xs) = Some q'"
      and q: "q = take P xs # q'"
      by (auto simp: splice_queue_step)
    from 1(1) [OF False _ q'] P have "concat q' = drop P xs" by simp
    with q show ?thesis by simp
  qed
qed

lemma splice_queue_nth:
  "splice_queue P xs = Some q \<Longrightarrow> i < length q \<Longrightarrow> q ! i = take P (drop (i * P) xs)"
proof (induction P xs arbitrary: q i rule: splice_queue.induct)
  case (1 P xs)
  show ?case
  proof (cases "xs = []")
    case True
    with 1(2,3) show ?thesis by simp
  next
    case False
    with 1(2) have P: "0 < P" by (cases "P = 0") (simp_all add: splice_queue_zero)
    with False 1(2) obtain q' where q': "splice_queue P (drop P xs) = Some q'"
      and q: "q = take P xs # q'"
      by (auto simp: splice_queue_step)
    show ?thesis
    proof (cases i)
      case 0
      with q show ?thesis by simp
    next
      case (Suc j)
      with 1(3) q have "j < length q'" by simp
      from 1(1) [OF False _ q' this] P have "q' ! j = take P (drop (j * P) (drop P xs))" by simp
      with q Suc show ?thesis by (simp add: add.commute)
    qed
  qed
qed

lemma ceil_div_Suc:
  fixes n P :: nat
  assumes "0 < P" "0 < n"
  shows "(n + P - 1) div P = Suc ((n - 1) div P)"
proof -
  from assms have "n + P - 1 = (n - 1) + P" by simp
  then show ?thesis using div_add_self2 [of P "n - 1"] assms by simp
qed

lemma ceil_div_drop:
  fixes n P :: nat
  assumes "0 < P" "0 < n"
  shows "(n + P - 1) div P = Suc ((n - P + P - 1) div P)"
proof (cases "P \<le> n")
  case True
  then have "n - P + P - 1 = n - 1" by simp
  with ceil_div_Suc [OF assms] show ?thesis by simp
next
  case False
  then have "n - 1 < P" "n - P + P - 1 < P" using assms by simp_all
  then have "(n - 1) div P = 0" "(n - P + P - 1) div P = 0" by simp_all
  with ceil_div_Suc [OF assms] show ?thesis by simp
qed

lemma splice_queue_length:
  "splice_queue P xs = Some q \<Longrightarrow> length q = (length xs + P - 1) div P"
proof (induction P xs arbitrary: q rule: splice_queue.induct)
  case (1 P xs)
  show ?case
  proof (cases "xs = []")
    case True
    with 1(2) have "q = []" by simp
    moreover have "(P - 1) div P = 0" by (cases "P = 0") simp_all
    ultimately show ?thesis using True by simp
  next
    case False
    with 1(2) have P: "0 < P" by (cases "P = 0") (simp_all add: splice_queue_zero)
    with False 1(2) obtain q' where q': "splice_queue P (drop P xs) = Some q'"
      and q: "q = take P xs # q'"
      by (auto simp: splice_queue_step)
    from 1(1) [OF False _ q'] P have len: "length q' = (length xs - P + P - 1) div P" by simp
    from False have "0 < length xs" by simp
    from ceil_div_drop [OF P this] len q show ?thesis by simp
  qed
qed

lemma or_default_pos: "0 < d \<Longrightarrow> 0 < or_default v d"
  by (simp add: or_default_def split: option.splits)

lemma or_default_cases: "or_default v d = d \<or> 0 < or_default v d"
  by (simp add: or_default_def split: option.splits)

lemma group_bounds:
  fixes n P i :: nat
  assumes "0 < P" and "i < (n + P - 1) div P"
  shows "i * P < n" and "Suc i < (n + P - 1) div P \<Longrightarrow> Suc i * P < n"
proof -
  have *: "j * P < n" if "j < (n + P - 1) div P" for j
  proof -
    from that have "Suc j \<le> (n + P - 1) div P" by simp
    with assms(1) have "Suc j * P \<le> n + P - 1"
      by (simp only: less_eq_div_iff_mult_less_eq)
    with assms(1) show ?thesis by simp
  qed
  from * [OF assms(2)] show "i * P < n" .
  show "Suc i * P < n" if "Suc i < (n + P - 1) div P" using * [OF that] .
qed

text \<open>
  Claim C10. For every frame list and every parallelism \<open>P \<ge> 1\<close> the loop that builds the
  queue ends, and the queue is an ordered partition of the list: group \<open>i\<close> is the
  contiguous slice of at most \<open>P\<close> frames that starts at index \<open>i * P\<close>, no group is
  empty, every group but the last has exactly \<open>P\<close> frames, and the groups concatenated in
  queue order give the frame list back.
\<close>

theorem queue_is_ordered_partition:
  assumes "0 < P"
  shows "\<exists>queue. splice_queue P xs = Some queue \<and> concat queue = xs \<and>
           (\<forall>i<length queue.
              queue ! i = take P (drop (i * P) xs) \<and> queue ! i \<noteq> [] \<and>
              length (queue ! i) \<le> P \<and> (Suc i < length queue \<longrightarrow> length (queue ! i) = P))"
proof -
  from splice_queue_total [OF assms] obtain q where q: "splice_queue P xs = Some q" by blast
  have len: "length q = (length xs + P - 1) div P" by (rule splice_queue_length [OF q])
  have "q ! i = take P (drop (i * P) xs) \<and> q ! i \<noteq> [] \<and>
        length (q ! i) \<le> P \<and> (Suc i < length q \<longrightarrow> length (q ! i) = P)"
    if i: "i < length q" for i
  proof -
    have nth: "q ! i = take P (drop (i * P) xs)" by (rule splice_queue_nth [OF q i])
    from i len have b: "i * P < length xs" using group_bounds(1) [OF assms] by simp
    have "length (q ! i) = P" if "Suc i < length q"
    proof -
      from that len have "Suc i * P < length xs" using group_bounds(2) [OF assms, of i "length xs"] i by simp
      then show ?thesis using nth by simp
    qed
    with nth b assms show ?thesis by simp
  qed
  with q splice_queue_concat [OF q] show ?thesis by blast
qed

text \<open>Five frames, two at a time.\<close>

theorem queue_is_ordered_partition_witness:
  "(0::nat) < 2 \<and> splice_queue 2 ''abcde'' = Some [''ab'', ''cd'', ''e''] \<and>
   concat [''ab'', ''cd'', ''e''] = ''abcde''"
  using queue_is_ordered_partition [of 2 "''abcde''"]
  by (simp add: splice_queue.simps)

section \<open>Properties of the scheduling loop\<close>

lemma fold_dispatch:
  "fold (dispatch lmt k) g s =
     s\<lparr>cancel := cancel s \<or> (g \<noteq> [] \<and> (\<exists>L. lmt = Some L \<and> L \<le> counter s)),
       events := events s @ map (Dispatch k) g\<rparr>"
  by (induction g arbitrary: s) (auto simp: dispatch_def split: option.splits)

lemma settled_counter:
  "counter (fold (settled progress tot out k) fs s) =
     counter s + (case progress of None \<Rightarrow> 0 | Some p \<Rightarrow> length fs)"
  by (induction fs arbitrary: s) (auto simp: settled_def Let_def split: option.splits)

lemma settled_retArray:
  "retArray (fold (settled progress tot out k) fs s) = retArray s @ map out fs"
  by (induction fs arbitrary: s) (auto simp: settled_def Let_def split: option.splits)


lemma settled_cancel:
  "cancel (fold (settled progress tot out k) fs s) =
     (cancel s \<or> (\<exists>p. progress = Some p \<and> (\<exists>i<length fs. p (counter s + i) tot)))"
proof (induction fs arbitrary: s)
  case Nil
  then show ?case by simp
next
  case (Cons f fs)
  show ?case
  proof (cases progress)
    case None
    with Cons show ?thesis by (simp add: settled_def)
  next
    case (Some p)
    have "(\<exists>i<Suc (length fs). p (counter s + i) tot) =
            (p (counter s) tot \<or> (\<exists>i<length fs. p (Suc (counter s) + i) tot))"
      by (auto simp: less_Suc_eq_0_disj)
    with Some Cons show ?thesis by (simp add: settled_def Let_def)
  qed
qed

lemma dispatched_append [simp]: "dispatched (es @ es') = dispatched es @ dispatched es'"
  by (induction es rule: dispatched.induct) simp_all

lemma settled_frames_append [simp]:
  "settled_frames (es @ es') = settled_frames es @ settled_frames es'"
  by (induction es rule: settled_frames.induct) simp_all

lemma dispatched_map_Dispatch [simp]: "dispatched (map (Dispatch k) g) = g"
  by (induction g) simp_all

lemma settled_frames_map_Dispatch [simp]: "settled_frames (map (Dispatch k) g) = []"
  by (induction g) simp_all

lemma settled_dispatched:
  "dispatched (events (fold (settled progress tot out k) fs s)) = dispatched (events s)"
  by (induction fs arbitrary: s) (auto simp: settled_def Let_def split: option.splits)

lemma settled_settled_frames:
  "settled_frames (events (fold (settled progress tot out k) fs s)) =
     settled_frames (events s) @ fs"
  by (induction fs arbitrary: s) (auto simp: settled_def Let_def split: option.splits)

lemma settles_all_length: "settles_all settle \<Longrightarrow> length (settle k g) = length g"
  unfolding settles_all_def by (metis size_mset)

lemma settles_all_set: "settles_all settle \<Longrightarrow> set (settle k g) = set g"
  unfolding settles_all_def by (metis set_mset_mset)

lemma group_step_counter:
  "settles_all settle \<Longrightarrow>
   counter (group_step lmt progress tot out settle k g s) =
     counter s + (case progress of None \<Rightarrow> 0 | Some p \<Rightarrow> length g)"
  by (simp add: group_step_def settled_counter fold_dispatch settles_all_length split: option.splits)


lemma group_step_cancel:
  "settles_all settle \<Longrightarrow>
   cancel (group_step lmt progress tot out settle k g s) =
     (cancel s \<or> (g \<noteq> [] \<and> (\<exists>L. lmt = Some L \<and> L \<le> counter s)) \<or>
      (\<exists>p. progress = Some p \<and> (\<exists>i<length g. p (counter s + i) tot)))"
  by (simp add: group_step_def settled_cancel fold_dispatch settles_all_length)

lemma group_step_dispatched:
  "dispatched (events (group_step lmt progress tot out settle k g s)) =
     dispatched (events s) @ g"
  by (simp add: group_step_def settled_dispatched fold_dispatch)

lemma group_step_settled_frames:
  "settled_frames (events (group_step lmt progress tot out settle k g s)) =
     settled_frames (events s) @ settle k g"
  by (simp add: group_step_def settled_settled_frames fold_dispatch)

lemma group_step_retArray:
  "retArray (group_step lmt progress tot out settle k g s) =
     retArray s @ map out (settle k g)"
  by (simp add: group_step_def settled_retArray fold_dispatch)

lemma run_queue_settled_frames:
  "settles_all settle \<Longrightarrow>
   mset (settled_frames (events s)) = mset (dispatched (events s)) \<Longrightarrow>
   mset (settled_frames (events (run_queue lmt progress tot out settle k gs s))) =
     mset (dispatched (events (run_queue lmt progress tot out settle k gs s)))"
proof (induction gs arbitrary: k s)
  case Nil
  then show ?case by simp
next
  case (Cons g gs)
  let ?s = "group_step lmt progress tot out settle k g s"
  from Cons.prems have "mset (settled_frames (events ?s)) = mset (dispatched (events ?s))"
    by (simp add: group_step_dispatched group_step_settled_frames settles_all_def)
  with Cons.IH [OF Cons.prems(1), of ?s "Suc k"] show ?case
    by (simp add: Let_def)
qed

lemma run_queue_retArray:
  "settles_all settle \<Longrightarrow>
   mset (retArray s) = mset (map out (dispatched (events s))) \<Longrightarrow>
   mset (retArray (run_queue lmt progress tot out settle k gs s)) =
     mset (map out (dispatched (events (run_queue lmt progress tot out settle k gs s))))"
proof (induction gs arbitrary: k s)
  case Nil
  then show ?case by simp
next
  case (Cons g gs)
  let ?s = "group_step lmt progress tot out settle k g s"
  from Cons.prems(1) have "mset (map out (settle k g)) = mset (map out g)"
    unfolding settles_all_def by (metis mset_map)
  with Cons.prems have "mset (retArray ?s) = mset (map out (dispatched (events ?s)))"
    by (simp add: group_step_dispatched group_step_retArray)
  with Cons.IH [OF Cons.prems(1), of ?s "Suc k"] show ?case
    by (simp add: Let_def)
qed


lemma run_queue_limit:
  assumes "settles_all settle" and "\<forall>c t. \<not> p c t"
  shows "splice_queue P xs = Some q \<Longrightarrow> \<not> cancel s \<Longrightarrow>
         dispatched (events (run_queue (Some L) (Some p) tot out settle k q s)) =
           dispatched (events s) @ take (P * Suc ((L - counter s + P - 1) div P)) xs"
proof (induction P xs arbitrary: q s k rule: splice_queue.induct)
  case (1 P xs)
  show ?case
  proof (cases "xs = []")
    case True
    with 1(2) show ?thesis by simp
  next
    case False
    with 1(2) have P: "0 < P" by (cases "P = 0") (simp_all add: splice_queue_zero)
    with False 1(2) obtain q' where q': "splice_queue P (drop P xs) = Some q'"
      and q: "q = take P xs # q'"
      by (auto simp: splice_queue_step)
    let ?g = "take P xs"
    let ?s = "group_step (Some L) (Some p) tot out settle k ?g s"
    from False P have g: "?g \<noteq> []" by simp
    have disp: "dispatched (events ?s) = dispatched (events s) @ ?g"
      by (simp add: group_step_dispatched)
    have cnt: "counter ?s = counter s + min (length xs) P"
      using assms(1) by (simp add: group_step_counter)
    have canc: "cancel ?s = (L \<le> counter s)"
      using assms 1(3) g by (simp add: group_step_cancel)
    show ?thesis
    proof (cases "L \<le> counter s")
      case True
      then have "(L - counter s + P - 1) div P = 0" using P by simp
      with True canc disp q show ?thesis by simp
    next
      case lt: False
      with canc have nc: "\<not> cancel ?s" by simp
      from 1(1) [OF False _ q' nc, of "Suc k"] P disp
      have ih: "dispatched (events (run_queue (Some L) (Some p) tot out settle (Suc k) q' ?s)) =
                  dispatched (events s) @ ?g @ take (P * Suc ((L - counter ?s + P - 1) div P)) (drop P xs)"
        by simp
      have res: "run_queue (Some L) (Some p) tot out settle k q s =
                   run_queue (Some L) (Some p) tot out settle (Suc k) q' ?s"
        using q nc by (simp add: Let_def)
      show ?thesis
      proof (cases "length xs \<le> P")
        case True
        then have "take (P * Suc ((L - counter s + P - 1) div P)) xs = xs" by simp
        with True ih res show ?thesis by simp
      next
        case False
        then have c: "counter ?s = counter s + P" using cnt by simp
        from lt have "0 < L - counter s" by simp
        from ceil_div_drop [OF P this]
        have "P * Suc ((L - counter s + P - 1) div P) =
                P + P * Suc ((L - (counter s + P) + P - 1) div P)"
          by simp
        then have "take (P * Suc ((L - counter s + P - 1) div P)) xs =
                     ?g @ take (P * Suc ((L - (counter s + P) + P - 1) div P)) (drop P xs)"
          by (simp only: take_add)
        with ih res c show ?thesis by simp
      qed
    qed
  qed
qed

lemma settled_events:
  "\<exists>es. events (fold (settled progress tot out k) fs s) = events s @ es \<and>
        (\<forall>e\<in>set es. group_of e = k) \<and>
        (\<forall>f\<in>set fs. Settle k f \<in> set es) \<and>
        ((\<exists>j f. StopSignal j f \<in> set es) \<longrightarrow> cancel (fold (settled progress tot out k) fs s))"
proof (induction fs arbitrary: s)
  case Nil
  then show ?case by simp
next
  case (Cons f fs)
  let ?s = "settled progress tot out k f s"
  define e1 where "e1 = Settle k f #
     (case progress of None \<Rightarrow> [] | Some p \<Rightarrow> if p (counter s) tot then [StopSignal k f] else [])"
  have e1: "events ?s = events s @ e1" "\<forall>e\<in>set e1. group_of e = k"
    "Settle k f \<in> set e1" "(\<exists>j f. StopSignal j f \<in> set e1) \<longrightarrow> cancel ?s"
    by (auto simp: e1_def settled_def Let_def split: option.splits)
  from Cons.IH [of ?s] obtain e2 where e2:
    "events (fold (settled progress tot out k) fs ?s) = events ?s @ e2"
    "\<forall>e\<in>set e2. group_of e = k" "\<forall>f\<in>set fs. Settle k f \<in> set e2"
    "(\<exists>j f. StopSignal j f \<in> set e2) \<longrightarrow> cancel (fold (settled progress tot out k) fs ?s)"
    by blast
  have mono: "cancel ?s \<longrightarrow> cancel (fold (settled progress tot out k) fs ?s)"
    by (simp add: settled_cancel)
  show ?case
    apply (rule exI [of _ "e1 @ e2"])
    using e1 e2 mono by auto
qed

lemma group_step_events:
  assumes "settles_all settle"
  shows "\<exists>es. events (group_step lmt progress tot out settle k g s) = events s @ es \<and>
        (\<forall>e\<in>set es. group_of e = k) \<and>
        (\<forall>f\<in>set g. Settle k f \<in> set es) \<and>
        ((\<exists>j f. StopSignal j f \<in> set es) \<longrightarrow> cancel (group_step lmt progress tot out settle k g s))"
proof -
  let ?d = "fold (dispatch lmt k) g s"
  from settled_events [of progress tot out k "settle k g" ?d] obtain es where es:
    "events (fold (settled progress tot out k) (settle k g) ?d) = events ?d @ es"
    "\<forall>e\<in>set es. group_of e = k" "\<forall>f\<in>set (settle k g). Settle k f \<in> set es"
    "(\<exists>j f. StopSignal j f \<in> set es) \<longrightarrow> cancel (fold (settled progress tot out k) (settle k g) ?d)"
    by blast
  have d: "events ?d = events s @ map (Dispatch k) g" by (simp add: fold_dispatch)
  show ?thesis
    apply (rule exI [of _ "map (Dispatch k) g @ es"])
    using es d settles_all_set [OF assms, of k g] by (auto simp: group_step_def)
qed

lemma run_queue_events:
  assumes "settles_all settle"
  shows "\<exists>es. events (run_queue lmt progress tot out settle k gs s) = events s @ es \<and>
        (\<forall>e\<in>set es. k \<le> group_of e) \<and>
        (\<forall>j f. StopSignal j f \<in> set es \<longrightarrow>
           j < k + length gs \<and> (\<forall>f'\<in>set (gs ! (j - k)). Settle j f' \<in> set es) \<and>
           (\<forall>e\<in>set es. group_of e \<le> j))"
proof (induction gs arbitrary: k s)
  case Nil
  then show ?case by simp
next
  case (Cons g gs)
  let ?s = "group_step lmt progress tot out settle k g s"
  from group_step_events [OF assms, of lmt progress tot out k g s] obtain e1 where e1:
    "events ?s = events s @ e1" "\<forall>e\<in>set e1. group_of e = k" "\<forall>f\<in>set g. Settle k f \<in> set e1"
    "(\<exists>j f. StopSignal j f \<in> set e1) \<longrightarrow> cancel ?s"
    by blast
  show ?case
  proof (cases "cancel ?s")
    case True
    have "\<forall>j f. StopSignal j f \<in> set e1 \<longrightarrow> j = k"
      using e1(2) by fastforce
    with True e1 show ?thesis
      by (intro exI [of _ e1]) (auto simp: Let_def)
  next
    case False
    from Cons.IH [of "Suc k" ?s] obtain e2 where e2:
      "events (run_queue lmt progress tot out settle (Suc k) gs ?s) = events ?s @ e2"
      "\<forall>e\<in>set e2. Suc k \<le> group_of e"
      "\<forall>j f. StopSignal j f \<in> set e2 \<longrightarrow>
           j < Suc k + length gs \<and> (\<forall>f'\<in>set (gs ! (j - Suc k)). Settle j f' \<in> set e2) \<and>
           (\<forall>e\<in>set e2. group_of e \<le> j)"
      by blast
    from False e1(4) have no: "\<forall>j f. StopSignal j f \<notin> set e1" by blast
    have "\<forall>j f. StopSignal j f \<in> set (e1 @ e2) \<longrightarrow>
           j < k + length (g # gs) \<and> (\<forall>f'\<in>set ((g # gs) ! (j - k)). Settle j f' \<in> set (e1 @ e2)) \<and>
           (\<forall>e\<in>set (e1 @ e2). group_of e \<le> j)"
    proof (intro allI impI)
      fix j f
      assume "StopSignal j f \<in> set (e1 @ e2)"
      with no have in2: "StopSignal j f \<in> set e2" by simp
      with e2(2) have kj: "Suc k \<le> j" by fastforce
      then have nth: "(g # gs) ! (j - k) = gs ! (j - Suc k)"
        by (metis Suc_diff_Suc Suc_le_lessD nth_Cons_Suc)
      from e2(3) in2 have a: "j < Suc k + length gs"
        and b: "\<forall>f'\<in>set (gs ! (j - Suc k)). Settle j f' \<in> set e2"
        and c: "\<forall>e\<in>set e2. group_of e \<le> j"
        by blast+
      from e1(2) kj have "\<forall>e\<in>set e1. group_of e \<le> j" by auto
      with a b c nth
      show "j < k + length (g # gs) \<and> (\<forall>f'\<in>set ((g # gs) ! (j - k)). Settle j f' \<in> set (e1 @ e2)) \<and>
           (\<forall>e\<in>set (e1 @ e2). group_of e \<le> j)"
        by auto
    qed
    moreover have "\<forall>e\<in>set (e1 @ e2). k \<le> group_of e"
      using e1(2) e2(2) by auto
    moreover have "events (run_queue lmt progress tot out settle k (g # gs) s) = events s @ (e1 @ e2)"
      using False e1(1) e2(1) by (simp add: Let_def)
    ultimately show ?thesis by blast
  qed
qed

lemma limit_arith:
  fixes P L :: nat
  assumes "0 < P" "0 < L"
  shows "L \<le> P * Suc ((L - 1 + P - 1) div P)"
proof -
  let ?a = "L - 1 + P - 1"
  have "P * (?a div P) + ?a mod P = ?a" by simp
  moreover from assms(1) have "?a mod P < P" by simp
  ultimately have "?a < P * (?a div P) + P" by linarith
  with assms show ?thesis by simp
qed

lemma groups_holding_limit:
  fixes P L :: nat
  assumes "0 < P" "0 < L"
  shows "(L + P - 1) div P \<le> Suc ((L - 1 + P - 1) div P)"
    and "(L - 1) mod P = 0 \<Longrightarrow> (L + P - 1) div P = Suc ((L - 1 + P - 1) div P)"
proof -
  have a: "(L + P - 1) div P = Suc ((L - 1) div P)" by (rule ceil_div_Suc [OF assms])
  from assms(1) have b: "L - 1 + P - 1 = (L - 1) + (P - 1)" by simp
  have "(L - 1) div P \<le> (L - 1 + (P - 1)) div P" by (rule div_le_mono) simp
  with a b show "(L + P - 1) div P \<le> Suc ((L - 1 + P - 1) div P)" by simp
  assume "(L - 1) mod P = 0"
  then obtain q where q: "L - 1 = P * q" by (auto simp: mod_eq_0_iff_dvd)
  from assms(1) have "(P * q + (P - 1)) div P = q + (P - 1) div P"
    by (intro div_mult_self4) simp
  moreover from assms(1) have "(P - 1) div P = 0" by simp
  ultimately have "(P * q + (P - 1)) div P = q" by linarith
  moreover from assms(1) have "(P * q) div P = q" by simp
  ultimately have "(L - 1 + (P - 1)) div P = (L - 1) div P" by (simp only: q)
  with a b show "(L + P - 1) div P = Suc ((L - 1 + P - 1) div P)" by simp
qed

text \<open>
  Claim C1, as the code has it. The limit is enforced by whole groups. With a progress
  callback that never asks to stop and an item limit \<open>L\<close> below the number of files,
  \<open>upscaleImages\<close> returns, and the frames it dispatched are a prefix of the file list
  made of whole groups (or the whole list). The prefix holds at least the groups up to
  the one with the \<open>L\<close>-th frame, that is at least \<open>P * \<lceil>L / P\<rceil>\<close> frames (all frames
  when there are fewer), so at least \<open>L\<close> frames. When \<open>L - 1\<close> is a multiple of \<open>P\<close>, in
  particular when \<open>P = 1\<close>, it is exactly these groups; with \<open>P = 1\<close> exactly \<open>L\<close> frames
  are processed. Every dispatched frame settles and contributes one result; no later
  frame is dispatched.
\<close>

theorem upscaleImages_limit_by_groups:
  fixes opts :: options and fileMap :: "string list"
  defines "P \<equiv> or_default (parallelFrames opts) 1"
    and "L \<equiv> or_default (limit opts) (length fileMap)"
  assumes env: "settles_all settle" and quiet: "\<forall>c t. \<not> p c t" and lt: "L < length fileMap"
  shows "\<exists>s n. upscaleImages opts (Some p) out settle fileMap = Some s \<and>
           dispatched (events s) = take n fileMap \<and>
           n \<le> length fileMap \<and>
           (P dvd n \<or> n = length fileMap) \<and>
           min (length fileMap) (P * ((L + P - 1) div P)) \<le> n \<and>
           ((L - 1) mod P = 0 \<longrightarrow> n = min (length fileMap) (P * ((L + P - 1) div P))) \<and>
           L \<le> n \<and>
           (P = 1 \<longrightarrow> n = L) \<and>
           mset (settled_frames (events s)) = mset (take n fileMap) \<and>
           mset (retArray s) = mset (map out (take n fileMap))"
proof -
  have P: "0 < P" unfolding P_def by (rule or_default_pos) simp
  from lt or_default_cases [of "limit opts" "length fileMap"] have L: "0 < L"
    unfolding L_def by auto
  from splice_queue_total [OF P] obtain q where q: "splice_queue P fileMap = Some q" by blast
  define s0 where "s0 = \<lparr>cancel = False, counter = 1, retArray = [],
                          calls = [(0, length fileMap)], events = []\<rparr>"
  define s where "s = run_queue (Some L) (Some p) (length fileMap) out settle 0 q s0"
  define n0 where "n0 = P * Suc ((L - 1 + P - 1) div P)"
  define n where "n = min (length fileMap) n0"
  have run: "upscaleImages opts (Some p) out settle fileMap = Some s"
    using q by (simp add: upscaleImages_def Let_def s_def s0_def P_def L_def)
  have "dispatched (events s) = take n0 fileMap"
    using run_queue_limit [OF env quiet q, of s0 L "length fileMap" out 0]
    by (simp add: s_def s0_def n0_def)
  also have "\<dots> = take n fileMap" by (simp add: n_def min_def)
  finally have d: "dispatched (events s) = take n fileMap" .
  have st: "mset (settled_frames (events s)) = mset (dispatched (events s))"
    unfolding s_def by (rule run_queue_settled_frames [OF env]) (simp add: s0_def)
  have ra: "mset (retArray s) = mset (map out (dispatched (events s)))"
    unfolding s_def by (rule run_queue_retArray [OF env]) (simp add: s0_def)
  have le: "n \<le> length fileMap" by (simp add: n_def)
  have whole: "P dvd n \<or> n = length fileMap" by (auto simp: n_def n0_def min_def)
  have "P * ((L + P - 1) div P) \<le> n0"
    unfolding n0_def by (rule mult_le_mono2) (rule groups_holding_limit(1) [OF P L])
  then have lo: "min (length fileMap) (P * ((L + P - 1) div P)) \<le> n"
    unfolding n_def by (intro min.mono) simp_all
  have ex: "n = min (length fileMap) (P * ((L + P - 1) div P))" if "(L - 1) mod P = 0"
    unfolding n_def n0_def by (simp only: groups_holding_limit(2) [OF P L that])
  from limit_arith [OF P L] lt have ge: "L \<le> n" by (simp add: n_def n0_def)
  have one: "n = L" if "P = 1" using that lt L by (simp add: n_def n0_def)
  from run d st ra le whole lo ex ge one show ?thesis
    by - (rule exI [of _ s], rule exI [of _ n], simp)
qed

text \<open>
  Five files, limit 3, two frames at a time: the third frame is in the second group,
  and the first two groups are processed.
\<close>

theorem upscaleImages_limit_by_groups_witness:
  "settles_all last_first \<and> (\<forall>c t. \<not> never_stop c t) \<and>
   or_default (limit (no_options\<lparr>limit := Some 3, parallelFrames := Some 2\<rparr>))
       (length [''a'', ''b'', ''c'', ''d'', ''e''])
     < length [''a'', ''b'', ''c'', ''d'', ''e''] \<and>
   upscaleImages (no_options\<lparr>limit := Some 3, parallelFrames := Some 2\<rparr>) (Some never_stop) id
       last_first [''a'', ''b'', ''c'', ''d'', ''e''] =
     Some \<lparr>cancel = True, counter = 5, retArray = [''b'', ''a'', ''d'', ''c''],
           calls = [(0, 5), (1, 5), (2, 5), (3, 5), (4, 5)],
           events = [Dispatch 0 ''a'', Dispatch 0 ''b'', Settle 0 ''b'', Settle 0 ''a'',
                     Dispatch 1 ''c'', Dispatch 1 ''d'', Settle 1 ''d'', Settle 1 ''c'']\<rparr>"
proof -
  have h1: "settles_all last_first" by (simp add: settles_all_def last_first_def)
  have h2: "\<forall>c t. \<not> never_stop c t" by (simp add: never_stop_def)
  have h3: "or_default (limit (no_options\<lparr>limit := Some 3, parallelFrames := Some 2\<rparr>))
              (length [''a'', ''b'', ''c'', ''d'', ''e'']) < length [''a'', ''b'', ''c'', ''d'', ''e'']"
    by (simp add: or_default_def)
  show ?thesis
    using h1 h2 h3 upscaleImages_limit_by_groups [OF h1 h2 h3, of id]
    by (simp add: upscaleImages_def or_default_def no_options_def splice_queue.simps
        group_step_def dispatch_def settled_def last_first_def never_stop_def)
qed

text \<open>
  Claim C1 as stated fails: three files, limit 1, two frames at a time. Both frames of
  the first group are dispatched and settle, so two frames are processed, not
  \<open>min 1 3 = 1\<close>.
\<close>

theorem upscaleImages_limit_counterexample:
  "upscaleImages (no_options\<lparr>limit := Some 1, parallelFrames := Some 2\<rparr>) (Some never_stop) id
       in_order [''a'', ''b'', ''c''] =
     Some \<lparr>cancel = True, counter = 3, retArray = [''a'', ''b''],
           calls = [(0, 3), (1, 3), (2, 3)],
           events = [Dispatch 0 ''a'', Dispatch 0 ''b'', Settle 0 ''a'', Settle 0 ''b'']\<rparr> \<and>
   length [''a'', ''b''] \<noteq> min 1 (length [''a'', ''b'', ''c''])"
  by (simp add: upscaleImages_def or_default_def no_options_def splice_queue.simps
      group_step_def dispatch_def settled_def in_order_def never_stop_def)

text \<open>
  Claim C2. In the loop of \<open>upscaleImages\<close> and in the loop of \<open>upscaleGIF\<close>: if the
  progress callback returns the stop signal while group \<open>k\<close> is processed, then \<open>k\<close> is a
  group of the queue, every frame of group \<open>k\<close> has settled when the loop exits, and every
  logged event belongs to a group up to \<open>k\<close>: no frame of a later group is dispatched.
\<close>

theorem stop_signal_drains_group:
  assumes env: "settles_all settle"
    and run: "upscaleImages opts progress out settle frames = Some s \<or>
              upscaleGIF_schedule opts progress out settle frames = Some s"
    and stop: "StopSignal k f \<in> set (events s)"
  shows "\<exists>queue. splice_queue (or_default (parallelFrames opts) 1) frames = Some queue \<and>
           k < length queue \<and>
           (\<forall>f'\<in>set (queue ! k). Settle k f' \<in> set (events s)) \<and>
           (\<forall>e\<in>set (events s). group_of e \<le> k)"
proof -
  let ?P = "or_default (parallelFrames opts) 1"
  have P: "0 < ?P" by (rule or_default_pos) simp
  from splice_queue_total [OF P] obtain q where q: "splice_queue ?P frames = Some q" by blast
  have "\<exists>lmt s0. s = run_queue lmt progress (length frames) out settle 0 q s0 \<and> events s0 = []"
    using run
  proof
    assume a: "upscaleImages opts progress out settle frames = Some s"
    let ?s0 = "\<lparr>cancel = False, counter = 1, retArray = [],
                calls = (case progress of None \<Rightarrow> [] | Some p \<Rightarrow> [(0, length frames)]),
                events = []\<rparr>"
    from a q have "s = run_queue (Some (or_default (limit opts) (length frames))) progress
                         (length frames) out settle 0 q ?s0"
      by (simp add: upscaleImages_def Let_def)
    moreover have "events ?s0 = []" by simp
    ultimately show ?thesis by blast
  next
    assume a: "upscaleGIF_schedule opts progress out settle frames = Some s"
    show ?thesis
    proof (cases "scale opts = Some 1")
      case True
      with a stop show ?thesis by (auto simp: upscaleGIF_schedule_def)
    next
      case False
      let ?s0 = "\<lparr>cancel = False,
                   counter = (case progress of None \<Rightarrow> 0 | Some p \<Rightarrow> 1),
                   retArray = [],
                   calls = (case progress of None \<Rightarrow> [] | Some p \<Rightarrow> [(0, length frames)]),
                   events = []\<rparr>"
      from False a q have "s = run_queue None progress (length frames) out settle 0 q ?s0"
        by (simp add: upscaleGIF_schedule_def Let_def)
      moreover have "events ?s0 = []" by simp
      ultimately show ?thesis by blast
    qed
  qed
  then obtain lmt s0 where s: "s = run_queue lmt progress (length frames) out settle 0 q s0"
    and s0: "events s0 = []" by blast
  from run_queue_events [OF env, of lmt progress "length frames" out 0 q s0] s s0 stop
  have "k < length q \<and> (\<forall>f'\<in>set (q ! k). Settle k f' \<in> set (events s)) \<and>
        (\<forall>e\<in>set (events s). group_of e \<le> k)"
    by auto
  with q show ?thesis by blast
qed

text \<open>
  Five frames, two at a time, each group settling last frame first; the callback stops
  at its third completed frame, which is in group 1.
\<close>

theorem stop_signal_drains_group_witness:
  "settles_all last_first \<and>
   upscaleGIF_schedule (no_options\<lparr>parallelFrames := Some 2\<rparr>) (Some (stop_at 3)) id last_first
       [''a'', ''b'', ''c'', ''d'', ''e''] =
     Some \<lparr>cancel = True, counter = 5, retArray = [''b'', ''a'', ''d'', ''c''],
           calls = [(0, 5), (1, 5), (2, 5), (3, 5), (4, 5)],
           events = [Dispatch 0 ''a'', Dispatch 0 ''b'', Settle 0 ''b'', Settle 0 ''a'',
                     Dispatch 1 ''c'', Dispatch 1 ''d'', Settle 1 ''d'', StopSignal 1 ''d'',
                     Settle 1 ''c'']\<rparr> \<and>
   splice_queue 2 [''a'', ''b'', ''c'', ''d'', ''e''] = Some [[''a'', ''b''], [''c'', ''d''], [''e'']]"
proof -
  let ?s = "\<lparr>cancel = True, counter = 5, retArray = [''b'', ''a'', ''d'', ''c''],
           calls = [(0, 5), (1, 5), (2, 5), (3, 5), (4, 5)],
           events = [Dispatch 0 ''a'', Dispatch 0 ''b'', Settle 0 ''b'', Settle 0 ''a'',
                     Dispatch 1 ''c'', Dispatch 1 ''d'', Settle 1 ''d'', StopSignal 1 ''d'',
                     Settle 1 ''c'']\<rparr>"
  have h1: "settles_all last_first" by (simp add: settles_all_def last_first_def)
  have run: "upscaleGIF_schedule (no_options\<lparr>parallelFrames := Some 2\<rparr>) (Some (stop_at 3)) id
               last_first [''a'', ''b'', ''c'', ''d'', ''e''] = Some ?s"
    by (simp add: upscaleGIF_schedule_def or_default_def no_options_def splice_queue.simps
        group_step_def dispatch_def settled_def last_first_def stop_at_def)
  then have h2: "upscaleImages (no_options\<lparr>parallelFrames := Some 2\<rparr>) (Some (stop_at 3)) id
               last_first [''a'', ''b'', ''c'', ''d'', ''e''] = Some ?s \<or>
             upscaleGIF_schedule (no_options\<lparr>parallelFrames := Some 2\<rparr>) (Some (stop_at 3)) id
               last_first [''a'', ''b'', ''c'', ''d'', ''e''] = Some ?s" ..
  have h3: "StopSignal 1 ''d'' \<in> set (events ?s)" by simp
  show ?thesis
    using h1 run stop_signal_drains_group [OF h1 h2 h3]
    by (simp add: or_default_def no_options_def splice_queue.simps)
qed



section \<open>Properties of the arithmetic on doubles\<close>

lemma ties_even_bounds: "\<lfloor>y\<rfloor> \<le> ties_even y" "ties_even y \<le> \<lceil>y\<rceil>"
proof -
  show "\<lfloor>y\<rfloor> \<le> ties_even y" by (simp add: ties_even_def Let_def)
  have "\<lfloor>y\<rfloor> + 1 \<le> \<lceil>y\<rceil>" if "y \<noteq> of_int \<lfloor>y\<rfloor>"
    using that by (metis ceiling_altdef order_refl)
  moreover have "y = of_int \<lfloor>y\<rfloor> \<Longrightarrow> ties_even y = \<lfloor>y\<rfloor>"
    by (simp add: ties_even_def Let_def)
  moreover have "ties_even y \<le> \<lfloor>y\<rfloor> + 1" by (simp add: ties_even_def Let_def)
  moreover have "\<lfloor>y\<rfloor> \<le> \<lceil>y\<rceil>" by (simp add: floor_le_ceiling)
  ultimately show "ties_even y \<le> \<lceil>y\<rceil>" by (cases "y = of_int \<lfloor>y\<rfloor>") auto
qed

lemma ties_even_of_int [simp]: "ties_even (of_int m) = m"
  by (simp add: ties_even_def Let_def)

lemma ties_even_ge: "of_int m \<le> y \<Longrightarrow> m \<le> ties_even y"
  using ties_even_bounds(1) [of y] by (meson le_floor_iff order_trans)

lemma ties_even_le: "y \<le> of_int m \<Longrightarrow> ties_even y \<le> m"
  using ties_even_bounds(2) [of y] by (meson ceiling_le_iff order_trans)

lemma floor_log2_bounds:
  assumes "0 < a"
  shows "power_int 2 \<lfloor>log 2 a\<rfloor> \<le> a" "a < power_int 2 (\<lfloor>log 2 a\<rfloor> + 1)"
proof -
  have "2 powr \<lfloor>log 2 a\<rfloor> \<le> a \<and> a < 2 powr (\<lfloor>log 2 a\<rfloor> + 1)"
    using floor_log_eq_powr_iff [OF assms, of 2 "\<lfloor>log 2 a\<rfloor>"] by simp
  then show "power_int 2 \<lfloor>log 2 a\<rfloor> \<le> a" "a < power_int 2 (\<lfloor>log 2 a\<rfloor> + 1)"
    using powr_real_of_int' [of 2 "\<lfloor>log 2 a\<rfloor>"] powr_real_of_int' [of 2 "\<lfloor>log 2 a\<rfloor> + 1"]
    by simp_all
qed

lemma floor_log2_eqI:
  assumes "power_int 2 e \<le> a" "a < power_int 2 (e + 1)"
  shows "\<lfloor>log 2 a\<rfloor> = e"
proof -
  have "0 < (power_int 2 e :: real)" by simp
  with assms(1) have a: "0 < a" by linarith
  have "2 powr e \<le> a \<and> a < 2 powr (e + 1)"
    using assms powr_real_of_int' [of 2 e] powr_real_of_int' [of 2 "e + 1"] by simp
  then show ?thesis using floor_log_eq_powr_iff [OF a, of 2 e] by simp
qed

lemma to_double_pos:
  assumes "0 < x"
  shows "to_double x =
     (let ulp = power_int 2 (max \<lfloor>log 2 x\<rfloor> (- 1022) - 52);
          r = of_int (ties_even (x / ulp)) * ulp
      in if power_int 2 1024 \<le> r then PosInfinity else Num r)"
  using assms by (simp add: to_double_def Let_def)

lemma ulp_small:
  assumes "e \<le> 52"
  shows "\<exists>m. (power_int 2 (e - 52) :: real) = 1 / 2 ^ m"
proof -
  from assms have "power_int 2 (e - 52) = (1 / 2 ^ nat (52 - e) :: real)"
    by (simp add: power_int_def field_simps)
  then show ?thesis by blast
qed

lemma floor_log2_nat_le:
  assumes "0 < x" "x \<le> real N" "N < 2 ^ 53"
  shows "\<lfloor>log 2 x\<rfloor> \<le> 52"
proof -
  from assms have "x < 2 ^ 53"
    by (metis le_less_trans of_nat_less_numeral_power_cancel_iff)
  then have "x < power_int 2 53" by simp
  have "\<lfloor>log 2 x\<rfloor> < 53"
  proof (rule ccontr)
    assume "\<not> \<lfloor>log 2 x\<rfloor> < 53"
    then have "(53::int) \<le> \<lfloor>log 2 x\<rfloor>" by simp
    then have "power_int 2 53 \<le> (power_int 2 \<lfloor>log 2 x\<rfloor> :: real)"
      by (intro power_int_increasing) simp_all
    with floor_log2_bounds(1) [OF assms(1)] \<open>x < power_int 2 53\<close> show False by linarith
  qed
  then show ?thesis by simp
qed

text \<open>A quotient that does not exceed a count below 2^53 is rounded to at most that count.\<close>

lemma to_double_le_nat:
  assumes "0 < x" "x \<le> real N" "N < 2 ^ 53"
  shows "\<exists>r. to_double x = Num r \<and> 0 \<le> r \<and> r \<le> real N"
proof -
  define e where "e = max \<lfloor>log 2 x\<rfloor> (- 1022)"
  define ulp :: real where "ulp = power_int 2 (e - 52)"
  define r where "r = of_int (ties_even (x / ulp)) * ulp"
  have "e \<le> 52" using floor_log2_nat_le [OF assms] by (simp add: e_def)
  from ulp_small [OF this] obtain m where m: "ulp = 1 / 2 ^ m" unfolding ulp_def by blast
  have ulp: "0 < ulp" by (simp add: m)
  have "x / ulp \<le> of_int (int N * 2 ^ m)"
    using assms(2) by (simp add: m)
  then have "ties_even (x / ulp) \<le> int N * 2 ^ m" by (rule ties_even_le)
  then have "of_int (ties_even (x / ulp)) \<le> (of_int (int N * 2 ^ m) :: real)"
    by (simp only: of_int_le_iff)
  then have hi: "r \<le> real N"
    by (simp add: r_def m field_simps)
  have "0 \<le> x / ulp" using assms(1) ulp by simp
  then have "of_int 0 \<le> x / ulp" by simp
  then have "0 \<le> ties_even (x / ulp)" by (rule ties_even_ge)
  then have lo: "0 \<le> r" using ulp by (simp add: r_def)
  from assms(3) have "real N < 2 ^ 1024"
  proof -
    have "(2::real) ^ 53 \<le> 2 ^ 1024" by (rule power_increasing) simp_all
    moreover from assms(3) have "real N < 2 ^ 53"
      by (metis of_nat_less_numeral_power_cancel_iff)
    ultimately show ?thesis by linarith
  qed
  with hi have "\<not> power_int 2 1024 \<le> r" by simp
  then have "to_double x = Num r"
    using assms(1) by (simp add: to_double_pos Let_def r_def ulp_def e_def)
  with lo hi show ?thesis by blast
qed

text \<open>A quotient of at least 1 is rounded to at least 1, or overflows.\<close>

lemma to_double_ge_one:
  assumes "1 \<le> x"
  shows "to_double x = PosInfinity \<or> (\<exists>r. to_double x = Num r \<and> 1 \<le> r)"
proof -
  from assms have x: "0 < x" by simp
  define e0 where "e0 = \<lfloor>log 2 x\<rfloor>"
  define ulp :: real where "ulp = power_int 2 (max e0 (- 1022) - 52)"
  define r where "r = of_int (ties_even (x / ulp)) * ulp"
  from assms have "0 \<le> log 2 x" by simp
  then have e0: "0 \<le> e0" by (simp add: e0_def)
  then have ulp_eq: "ulp = power_int 2 (e0 - 52)" by (simp add: ulp_def max_def)
  have ulp: "0 < ulp" by (simp add: ulp_def)
  have "power_int 2 e0 \<le> x" unfolding e0_def by (rule floor_log2_bounds(1) [OF x])
  moreover have "(power_int 2 e0 :: real) = 2 ^ 52 * ulp"
    unfolding ulp_eq by (simp add: power_int_diff)
  ultimately have "2 ^ 52 * ulp \<le> x" by simp
  then have "of_int (2 ^ 52) \<le> x / ulp" using ulp by (simp add: field_simps)
  then have "2 ^ 52 \<le> ties_even (x / ulp)" by (rule ties_even_ge)
  then have "(of_int (2 ^ 52) :: real) \<le> of_int (ties_even (x / ulp))"
    by (simp only: of_int_le_iff)
  then have "2 ^ 52 * ulp \<le> r" using ulp by (simp add: r_def)
  moreover have "1 \<le> (power_int 2 e0 :: real)"
    using e0 by (simp add: power_int_def)
  ultimately have "1 \<le> r" using \<open>(power_int 2 e0 :: real) = 2 ^ 52 * ulp\<close> by linarith
  then show ?thesis
    using x by (simp add: to_double_pos Let_def r_def ulp_def e0_def)
qed

text \<open>Counts below 2^53 are doubles.\<close>

lemma to_double_nat:
  assumes "N < 2 ^ 53"
  shows "to_double (real N) = Num (real N)"
proof (cases "N = 0")
  case True
  then show ?thesis by (simp add: to_double_def)
next
  case False
  then have x: "0 < real N" by simp
  define e where "e = max \<lfloor>log 2 (real N)\<rfloor> (- 1022)"
  define ulp :: real where "ulp = power_int 2 (e - 52)"
  have "e \<le> 52" using floor_log2_nat_le [OF x _ assms] by (simp add: e_def)
  from ulp_small [OF this] obtain m where m: "ulp = 1 / 2 ^ m" unfolding ulp_def by blast
  have "real N / ulp = of_int (int N * 2 ^ m)" by (simp add: m)
  then have "ties_even (real N / ulp) = int N * 2 ^ m" by (simp only: ties_even_of_int)
  then have r: "of_int (ties_even (real N / ulp)) * ulp = real N" by (simp add: m)
  have "(2::real) ^ 53 \<le> 2 ^ 1024" by (rule power_increasing) simp_all
  moreover from assms have "real N < 2 ^ 53"
    by (metis of_nat_less_numeral_power_cancel_iff)
  ultimately have "\<not> power_int 2 1024 \<le> real N" by simp
  with r show ?thesis
    using x by (simp add: to_double_pos Let_def ulp_def e_def)
qed

lemma to_double_eval:
  assumes "power_int 2 e \<le> x" "x < power_int 2 (e + 1)" "- 1022 \<le> e"
  shows "to_double x =
     (let ulp = power_int 2 (e - 52);
          r = of_int (ties_even (x / ulp)) * ulp
      in if power_int 2 1024 \<le> r then PosInfinity else Num r)"
proof -
  have "0 < (power_int 2 e :: real)" by simp
  with assms(1) have x: "0 < x" by linarith
  from floor_log2_eqI [OF assms(1,2)] assms(3) have "max \<lfloor>log 2 x\<rfloor> (- 1022) = e" by simp
  then show ?thesis using x by (simp add: to_double_pos)
qed

lemma to_double_value:
  assumes "power_int 2 e \<le> x" "x < power_int 2 (e + 1)" "- 1022 \<le> e" "e < 1023"
    and "ties_even (x / power_int 2 (e - 52)) = k"
  shows "to_double x = Num (of_int k * power_int 2 (e - 52))"
proof -
  have ulp: "0 < (power_int 2 (e - 52) :: real)" by simp
  have e: "(power_int 2 (e + 1) :: real) = 2 ^ 53 * power_int 2 (e - 52)"
    using power_int_add [of "2::real" 53 "e - 52"] by (simp add: add.commute)
  with assms(2) ulp have "x / power_int 2 (e - 52) \<le> of_int (2 ^ 53)"
    by (simp add: field_simps)
  then have "k \<le> 2 ^ 53" unfolding assms(5) [symmetric] by (rule ties_even_le)
  then have "(of_int k :: real) \<le> of_int (2 ^ 53)" by (simp only: of_int_le_iff)
  then have "of_int k * power_int 2 (e - 52) \<le> (power_int 2 (e + 1) :: real)"
    using ulp by (simp add: e)
  moreover from assms(4) have "(power_int 2 (e + 1) :: real) < power_int 2 1024"
    by (intro power_int_strict_increasing) simp_all
  ultimately have "\<not> power_int 2 1024 \<le> of_int k * (power_int 2 (e - 52) :: real)"
    by linarith
  then show ?thesis
    unfolding to_double_eval [OF assms(1-3)] by (simp add: Let_def assms(5))
qed

lemma ulp_51: "(power_int 2 (1 - 52) :: real) = 1 / 2 ^ 51"
  using power_int_minus_divide [of "2::real" 51] by simp

lemma ulp_50: "(power_int 2 (2 - 52) :: real) = 1 / 2 ^ 50"
  using power_int_minus_divide [of "2::real" 50] by simp

lemma quotient_17_7: "to_double (17 / 7) = Num (5468656690378459 / 2 ^ 51)"
proof -
  have "to_double (17 / 7) = Num (of_int 5468656690378459 * power_int 2 (1 - 52))"
  proof (rule to_double_value)
    show "ties_even (17 / 7 / power_int 2 (1 - 52)) = 5468656690378459"
      unfolding ulp_51 by (simp add: ties_even_def Let_def)
  qed simp_all
  then show ?thesis unfolding ulp_51 by simp
qed

lemma quotient_17_17_7: "to_double (17 / (5468656690378459 / 2 ^ 51)) = Num (7881299347898369 / 2 ^ 50)"
proof -
  have "to_double (17 / (5468656690378459 / 2 ^ 51)) =
          Num (of_int 7881299347898369 * power_int 2 (2 - 52))"
  proof (rule to_double_value)
    show "ties_even (17 / (5468656690378459 / 2 ^ 51) / power_int 2 (2 - 52)) = 7881299347898369"
      unfolding ulp_50 by (simp add: ties_even_def Let_def)
  qed simp_all
  then show ?thesis unfolding ulp_50 by simp
qed

lemma ceiling_quotient_17: "\<lceil>7881299347898369 / 2 ^ 50 :: real\<rceil> = 8"
  by (simp add: ceiling_eq_iff)

section \<open>Properties of frame selection and timing\<close>

lemma to_double_one [simp]: "to_double 1 = Num 1"
  using to_double_nat [of 1] by simp

lemma frame_step_fast:
  "speed opts = Some sp \<Longrightarrow> 1 < sp \<Longrightarrow>
   frame_step opts n = js_ceil (js_div (Num (real n)) (js_div (Num (real n)) (Num sp)))"
  by (simp add: frame_step_def constraint_def)

text \<open>
  The rounding of the source is in the model: 17 frames at speed 7 give the stride 8,
  because \<open>17 / (17 / 7)\<close> is the double just above 7.
\<close>

lemma stride_17_at_speed_7: "frame_step (no_options\<lparr>speed := Some 7\<rparr>) 17 = Num 8"
proof -
  have 1: "js_div (Num 17) (Num 7) = Num (5468656690378459 / 2 ^ 51)"
    using quotient_17_7 by simp
  have 2: "js_div (Num 17) (Num (5468656690378459 / 2 ^ 51)) = Num (7881299347898369 / 2 ^ 50)"
    using quotient_17_17_7 by simp
  have 3: "js_ceil (Num (7881299347898369 / 2 ^ 50)) = Num 8"
    using ceiling_quotient_17 by simp
  have "frame_step (no_options\<lparr>speed := Some 7\<rparr>) 17 =
          js_ceil (js_div (Num (real 17)) (js_div (Num (real 17)) (Num 7)))"
    by (rule frame_step_fast) simp_all
  also have "real 17 = 17" by simp
  finally show ?thesis by (simp only: 1 2 3)
qed

lemma frame_step_other:
  assumes "\<not> (\<exists>sp. speed opts = Some sp \<and> 1 < sp)" "0 < n"
  shows "frame_step opts n = Num 1"
proof -
  from assms(1) have "constraint opts n = Num (real n)"
    by (auto simp: constraint_def split: option.splits)
  with assms(2) show ?thesis by (simp add: frame_step_def)
qed

lemma frame_step_range:
  assumes "speed opts = Some sp" "1 < sp" "0 < n" "n < 2 ^ 53"
  shows "frame_step opts n = PosInfinity \<or> (\<exists>k\<ge>1. frame_step opts n = Num (real k))"
proof -
  from assms have x: "0 < real n / sp" "real n / sp \<le> real n"
    by (simp_all add: field_simps)
  from to_double_le_nat [OF x assms(4)] obtain r where
    r: "to_double (real n / sp) = Num r" "0 \<le> r" "r \<le> real n" by blast
  from assms(1,2) r(1) have step: "frame_step opts n = js_ceil (js_div (Num (real n)) (Num r))"
    by (simp add: frame_step_fast)
  show ?thesis
  proof (cases "r = 0")
    case True
    with step assms(3) show ?thesis by simp
  next
    case False
    with r(2) have rpos: "0 < r" by simp
    with r(3) have "1 \<le> real n / r" by (simp add: field_simps)
    from to_double_ge_one [OF this] show ?thesis
    proof
      assume "to_double (real n / r) = PosInfinity"
      with step False show ?thesis by simp
    next
      assume "\<exists>q. to_double (real n / r) = Num q \<and> 1 \<le> q"
      then obtain q where q: "to_double (real n / r) = Num q" "1 \<le> q" by blast
      from q(2) have c: "1 \<le> \<lceil>q\<rceil>" by linarith
      then have "of_int \<lceil>q\<rceil> = real (nat \<lceil>q\<rceil>)" by simp
      with step False q(1) have "frame_step opts n = Num (real (nat \<lceil>q\<rceil>))" by simp
      moreover have "1 \<le> nat \<lceil>q\<rceil>"
      proof -
        from c have "0 < \<lceil>q\<rceil>" by linarith
        then have "0 < nat \<lceil>q\<rceil>" by (simp only: zero_less_nat_eq)
        then show ?thesis by linarith
      qed
      ultimately show ?thesis by blast
    qed
  qed
qed

lemma download_loop_closed:
  "0 < k \<Longrightarrow>
   download_loop d k frames i =
     map (\<lambda>m. (frame_file d (i + m * k), frames ! (i + m * k)))
       [0..<(length frames - i + k - 1) div k]"
proof (induction d k frames i rule: download_loop.induct)
  case (1 d k frames i)
  show ?case
  proof (cases "i < length frames")
    case True
    let ?c = "(length frames - (i + k) + k - 1) div k"
    from True have "0 < length frames - i" by simp
    from ceil_div_drop [OF 1(2) this]
    have c: "(length frames - i + k - 1) div k = Suc ?c" by simp
    have "[0..<Suc ?c] = 0 # map Suc [0..<?c]"
      by (simp add: upt_conv_Cons map_Suc_upt del: upt_Suc)
    with c have "map (\<lambda>m. (frame_file d (i + m * k), frames ! (i + m * k)))
                   [0..<(length frames - i + k - 1) div k] =
                 (frame_file d i, frames ! i) #
                 map (\<lambda>m. (frame_file d (i + k + m * k), frames ! (i + k + m * k))) [0..<?c]"
      by (simp add: comp_def add.assoc del: upt_Suc)
    moreover from 1 True have "download_loop d k frames (i + k) =
        map (\<lambda>m. (frame_file d (i + k + m * k), frames ! (i + k + m * k))) [0..<?c]"
      by simp
    ultimately show ?thesis
      using True 1(2) by (subst download_loop.simps) simp
  next
    case False
    then have "(length frames - i + k - 1) div k = 0" using 1(2) by simp
    with False show ?thesis by (subst download_loop.simps) simp
  qed
qed

lemma downloadFrames_whole_step:
  assumes "frames \<noteq> []" "0 < k"
  shows "downloadFrames d (Num (real k)) frames =
           Some (map (\<lambda>m. (frame_file d (m * k), frames ! (m * k)))
                   [0..<(length frames + k - 1) div k])"
proof (cases "length frames \<le> k")
  case True
  from assms(1) have n: "0 < length frames" by simp
  with True have "length frames - 1 < k" by linarith
  then have "(length frames - 1) div k = 0" by simp
  with ceil_div_Suc [OF assms(2) n] have "(length frames + k - 1) div k = 1" by simp
  with True assms(1) show ?thesis by (simp add: downloadFrames_def)
next
  case False
  with assms show ?thesis
    by (simp add: downloadFrames_def download_loop_closed)
qed

text \<open>
  Claim C4. In \<open>upscaleGIF\<close>, for a source with at least one frame. With a speed above 1
  the stride is \<open>Math.ceil(n / (n / speed))\<close> for \<open>n\<close> decoded frames, computed in
  doubles; it is a whole number of at least 1, or infinite; the retained frames are those
  at the multiples of the stride (frame 0 alone for an infinite stride), and each keeps
  its own delay unchanged; speed 2 on 20 frames gives stride 2 and 10 retained frames.
  With a speed below 1 the stride is 1, every frame is retained, and every delay is
  divided by the speed.
\<close>

theorem gif_speed_timing:
  assumes fast: "speed fast = Some s1" "1 < s1"
    and slow: "speed slow = Some s2" "s2 < 1"
    and ne: "frames \<noteq> []" and len: "length frames < 2 ^ 53"
  shows "frame_step fast (length frames) =
           js_ceil (js_div (Num (real (length frames)))
                      (js_div (Num (real (length frames))) (Num s1))) \<and>
         (frame_step fast (length frames) = PosInfinity \<or>
          (\<exists>k\<ge>1. frame_step fast (length frames) = Num (real k))) \<and>
         (\<forall>k. frame_step fast (length frames) = Num (real k) \<longrightarrow>
            gif_frames fast d frames =
              Some (map (\<lambda>m. frame_file d (m * k)) [0..<(length frames + k - 1) div k],
                    map (\<lambda>m. Num (frames ! (m * k))) [0..<(length frames + k - 1) div k])) \<and>
         (frame_step fast (length frames) = PosInfinity \<longrightarrow>
            gif_frames fast d frames = Some ([frame_file d 0], [Num (frames ! 0)])) \<and>
         (length frames = 20 \<and> s1 = 2 \<longrightarrow>
            frame_step fast (length frames) = Num 2 \<and>
            gif_frames fast d frames =
              Some (map (\<lambda>m. frame_file d (m * 2)) [0..<10],
                    map (\<lambda>m. Num (frames ! (m * 2))) [0..<10])) \<and>
         frame_step slow (length frames) = Num 1 \<and>
         gif_frames slow d frames =
           Some (map (frame_file d) [0..<length frames],
                 map (\<lambda>n. js_div (Num n) (Num s2)) frames)"
proof -
  let ?n = "length frames"
  from ne have n: "0 < ?n" by simp
  have a: "frame_step fast ?n =
           js_ceil (js_div (Num (real ?n)) (js_div (Num (real ?n)) (Num s1)))"
    by (rule frame_step_fast [OF fast])
  have b: "frame_step fast ?n = PosInfinity \<or> (\<exists>k\<ge>1. frame_step fast ?n = Num (real k))"
    by (rule frame_step_range [OF fast n len])
  have c: "gif_frames fast d frames =
              Some (map (\<lambda>m. frame_file d (m * k)) [0..<(?n + k - 1) div k],
                    map (\<lambda>m. Num (frames ! (m * k))) [0..<(?n + k - 1) div k])"
    if k: "frame_step fast ?n = Num (real k)" for k
  proof -
    from b k have "0 < k" by auto
    from downloadFrames_whole_step [OF ne this, of d] k fast show ?thesis
      by (simp add: gif_frames_def Let_def comp_def)
  qed
  have e: "gif_frames fast d frames = Some ([frame_file d 0], [Num (frames ! 0)])"
    if "frame_step fast ?n = PosInfinity"
    using that ne fast by (simp add: gif_frames_def Let_def downloadFrames_def)
  have f: "frame_step fast ?n = Num 2 \<and>
           gif_frames fast d frames =
              Some (map (\<lambda>m. frame_file d (m * 2)) [0..<10],
                    map (\<lambda>m. Num (frames ! (m * 2))) [0..<10])"
    if "?n = 20 \<and> s1 = 2"
  proof -
    have "to_double 10 = Num 10" "to_double 2 = Num 2"
      using to_double_nat [of 10] to_double_nat [of 2] by simp_all
    with that a have s: "frame_step fast ?n = Num (real 2)" by simp
    from c [OF s] that s show ?thesis by simp
  qed
  from slow have no: "\<not> (\<exists>sp. speed slow = Some sp \<and> 1 < sp)" by auto
  have g: "frame_step slow ?n = Num 1" by (rule frame_step_other [OF no n])
  have "downloadFrames d (Num (real 1)) frames =
          Some (map (\<lambda>m. (frame_file d (m * 1), frames ! (m * 1))) [0..<(?n + 1 - 1) div 1])"
    by (rule downloadFrames_whole_step [OF ne]) simp
  then have dl: "downloadFrames d (Num 1) frames =
          Some (map (\<lambda>m. (frame_file d m, frames ! m)) [0..<?n])"
    by simp
  have "map (\<lambda>x. js_div (Num (frames ! x)) (Num s2)) [0..<?n] =
          map (\<lambda>n. js_div (Num n) (Num s2)) (map (\<lambda>m. frames ! m) [0..<?n])"
    by (simp add: comp_def)
  then have "map (\<lambda>x. js_div (Num (frames ! x)) (Num s2)) [0..<?n] =
          map (\<lambda>n. js_div (Num n) (Num s2)) frames"
    by (simp only: map_nth)
  then have h: "gif_frames slow d frames =
           Some (map (frame_file d) [0..<?n], map (\<lambda>n. js_div (Num n) (Num s2)) frames)"
    using slow g dl by (simp add: gif_frames_def Let_def comp_def)
  from a b c e f g h show ?thesis by blast
qed

text \<open>Twenty frames with delay 4, at speed 2 and at speed one half.\<close>

theorem gif_speed_timing_witness:
  "speed (no_options\<lparr>speed := Some 2\<rparr>) = Some 2 \<and> (1::real) < 2 \<and>
   speed (no_options\<lparr>speed := Some (1 / 2)\<rparr>) = Some (1 / 2) \<and> (1 / 2 :: real) < 1 \<and>
   replicate 20 (4::real) \<noteq> [] \<and> length (replicate 20 (4::real)) < 2 ^ 53 \<and>
   frame_step (no_options\<lparr>speed := Some 2\<rparr>) (length (replicate 20 (4::real))) = Num 2 \<and>
   map_option (length \<circ> fst) (gif_frames (no_options\<lparr>speed := Some 2\<rparr>) ''ws'' (replicate 20 4)) =
     Some 10 \<and>
   frame_step (no_options\<lparr>speed := Some (1 / 2)\<rparr>) (length (replicate 20 (4::real))) = Num 1 \<and>
   map_option snd (gif_frames (no_options\<lparr>speed := Some (1 / 2)\<rparr>) ''ws'' (replicate 20 4)) =
     Some (replicate 20 (Num 8))"
proof -
  have h1: "speed (no_options\<lparr>speed := Some 2\<rparr>) = Some 2" by simp
  have h2: "(1::real) < 2" by simp
  have h3: "speed (no_options\<lparr>speed := Some (1 / 2)\<rparr>) = Some (1 / 2)" by simp
  have h4: "(1 / 2 :: real) < 1" by simp
  have h5: "replicate 20 (4::real) \<noteq> []" by simp
  have h6: "length (replicate 20 (4::real)) < 2 ^ 53" by simp
  have "to_double 8 = Num 8" "to_double 10 = Num 10" "to_double 2 = Num 2"
    using to_double_nat [of 8] to_double_nat [of 10] to_double_nat [of 2] by simp_all
  then show ?thesis
    using gif_speed_timing [OF h1 h2 h3 h4 h5 h6, of "''ws''"]
    by (simp add: map_replicate_const)
qed

text \<open>
  Claim C5. For a frame sequence and a delay sequence of the same length, the reverse
  step reverses both, so that the pairs of a frame and its delay are the same pairs in
  reverse order, and applying the step twice gives back the original frame order and
  delay sequence.
\<close>

theorem reverse_step_aligned_involution:
  assumes "reverse opts = Some True" and "length frames = length delays"
  shows "reverse_step opts (frames, delays) = (rev frames, rev delays) \<and>
         zip (fst (reverse_step opts (frames, delays))) (snd (reverse_step opts (frames, delays))) =
           rev (zip frames delays) \<and>
         reverse_step opts (reverse_step opts (frames, delays)) = (frames, delays)"
  using assms by (simp add: reverse_step_def zip_rev)

text \<open>Three frames and their delays.\<close>

theorem reverse_step_aligned_involution_witness:
  "reverse (no_options\<lparr>reverse := Some True\<rparr>) = Some True \<and>
   length [''f0'', ''f1'', ''f2''] = length [Num 3, Num 4, Num 5] \<and>
   reverse_step (no_options\<lparr>reverse := Some True\<rparr>) ([''f0'', ''f1'', ''f2''], [Num 3, Num 4, Num 5]) =
     ([''f2'', ''f1'', ''f0''], [Num 5, Num 4, Num 3]) \<and>
   reverse_step (no_options\<lparr>reverse := Some True\<rparr>)
       (reverse_step (no_options\<lparr>reverse := Some True\<rparr>)
          ([''f0'', ''f1'', ''f2''], [Num 3, Num 4, Num 5])) =
     ([''f0'', ''f1'', ''f2''], [Num 3, Num 4, Num 5])"
proof -
  have h1: "reverse (no_options\<lparr>reverse := Some True\<rparr>) = Some True" by simp
  have h2: "length [''f0'', ''f1'', ''f2''] = length [Num 3, Num 4, Num 5]" by simp
  show ?thesis
    using reverse_step_aligned_involution [OF h1 h2] by (simp add: reverse_step_def)
qed

lemma scale_ratio_flag:
  assumes "scale opts = Some 1"
  shows "NumArg ''--scale-ratio'' 1 \<in> set (upscaleImage_command opts sourcePath destPath)"
  using assms by (simp add: upscaleImage_command_def)

lemma upscaleImage_options_fixed:
  "(upscaleImage_options isAbsolute joinLocal opts)\<lparr>modelDir := None, rename := None\<rparr> =
     opts\<lparr>modelDir := None, rename := None\<rparr>"
  by (simp add: upscaleImage_options_def Let_def split: option.splits)

lemma upscaleImage_options_funpow_fixed:
  "((upscaleImage_options isAbsolute joinLocal ^^ k) opts)\<lparr>modelDir := None, rename := None\<rparr> =
     opts\<lparr>modelDir := None, rename := None\<rparr>"
  by (induction k) (simp_all add: upscaleImage_options_fixed)

lemma upscaleImage_options_rename:
  "rename opts = Some x \<Longrightarrow> rename (upscaleImage_options isAbsolute joinLocal opts) = Some x"
  by (simp add: upscaleImage_options_def Let_def split: option.splits)

lemma upscaleImage_options_funpow_rename:
  "rename opts = Some x \<Longrightarrow>
   rename ((upscaleImage_options isAbsolute joinLocal ^^ k) opts) = Some x"
  by (induction k) (simp_all add: upscaleImage_options_rename)

lemma fixed_eqD:
  fixes X Y :: options
  assumes "X\<lparr>modelDir := None, rename := None\<rparr> = Y\<lparr>modelDir := None, rename := None\<rparr>"
  shows "X = Y\<lparr>modelDir := modelDir X, rename := rename X\<rparr>"
proof -
  have "X = (X\<lparr>modelDir := None, rename := None\<rparr>)\<lparr>modelDir := modelDir X, rename := rename X\<rparr>"
    by simp
  also have "\<dots> = (Y\<lparr>modelDir := None, rename := None\<rparr>)\<lparr>modelDir := modelDir X, rename := rename X\<rparr>"
    by (simp only: assms)
  also have "\<dots> = Y\<lparr>modelDir := modelDir X, rename := rename X\<rparr>" by simp
  finally show ?thesis .
qed

lemma funpow_frame:
  "(upscaleImage_options isAbsolute joinLocal ^^ k) opts =
     opts\<lparr>modelDir := modelDir ((upscaleImage_options isAbsolute joinLocal ^^ k) opts),
          rename := rename ((upscaleImage_options isAbsolute joinLocal ^^ k) opts)\<rparr>"
  by (rule fixed_eqD) (rule upscaleImage_options_funpow_fixed)

lemma schedule_options_frame:
  fixes isAbsolute :: "string \<Rightarrow> bool" and joinLocal :: "string \<Rightarrow> string"
    and k :: nat and opts :: options
  assumes "rename opts = Some x"
  defines "X \<equiv> (if scale opts \<noteq> Some 1
                then (upscaleImage_options isAbsolute joinLocal ^^ k)
                       (opts\<lparr>parallelFrames := Some (or_default (parallelFrames opts) 1)\<rparr>)
                else opts)"
  shows "X = opts\<lparr>modelDir := modelDir X, parallelFrames := parallelFrames X\<rparr>"
proof (cases "scale opts = Some 1")
  case True
  then show ?thesis by (simp add: X_def)
next
  case False
  let ?o = "opts\<lparr>parallelFrames := Some (or_default (parallelFrames opts) 1)\<rparr>"
  from False have X: "X = (upscaleImage_options isAbsolute joinLocal ^^ k) ?o" by (simp add: X_def)
  from assms(1) have "rename ?o = Some x" by simp
  then have r: "rename X = Some x" unfolding X by (rule upscaleImage_options_funpow_rename)
  have "X = ?o\<lparr>modelDir := modelDir X, rename := rename X\<rparr>"
    unfolding X by (rule funpow_frame)
  with r assms(1) have eq: "X = opts\<lparr>modelDir := modelDir X,
      parallelFrames := Some (or_default (parallelFrames opts) 1)\<rparr>"
    by (cases opts) simp
  from arg_cong [OF eq, of parallelFrames]
  have "parallelFrames X = Some (or_default (parallelFrames opts) 1)" by simp
  with eq show ?thesis by simp
qed

section \<open>Properties of the options object\<close>

text \<open>
  Claim C9, as the code has it. The pipeline operations assign defaults and normalised
  values to fields of the options object they are given, so the caller sees them after
  the call; every other field keeps the value passed in. \<open>upscaleImage\<close> can write
  \<open>modelDir\<close> and \<open>rename\<close>; \<open>upscaleImages\<close> also sets \<open>limit\<close> and \<open>parallelFrames\<close> to
  their defaults; \<open>upscaleGIF\<close> sets \<open>rename\<close> to the empty string and can write
  \<open>modelDir\<close>, \<open>parallelFrames\<close> and \<open>cumulative\<close>; \<open>upscaleVideo\<close> sets \<open>rename\<close> to the
  empty string and can write \<open>modelDir\<close>, \<open>parallelFrames\<close>, \<open>speed\<close>, \<open>reverse\<close> and
  \<open>framerate\<close>.
\<close>

theorem options_written_in_place:
  fixes isAbsolute :: "string \<Rightarrow> bool" and joinLocal :: "string \<Rightarrow> string" and opts :: options
  shows
  "(\<exists>m r. snd (upscaleImage isAbsolute joinLocal opts sourcePath destPath) =
            opts\<lparr>modelDir := m, rename := r\<rparr>) \<and>
   (\<exists>m r. upscaleImages_options isAbsolute joinLocal nfiles k opts =
            opts\<lparr>modelDir := m, rename := r,
                 limit := Some (or_default (limit opts) nfiles),
                 parallelFrames := Some (or_default (parallelFrames opts) 1)\<rparr>) \<and>
   (\<exists>m p c. upscaleGIF_options isAbsolute joinLocal k opts =
            opts\<lparr>modelDir := m, rename := Some [], parallelFrames := p, cumulative := c\<rparr>) \<and>
   (\<exists>m p s r f. upscaleVideo_options isAbsolute joinLocal probed k opts =
            opts\<lparr>modelDir := m, rename := Some [], parallelFrames := p, speed := s,
                 reverse := r, framerate := f\<rparr>)"
proof (intro conjI)
  let ?X = "upscaleImage_options isAbsolute joinLocal opts"
  have "?X = opts\<lparr>modelDir := modelDir ?X, rename := rename ?X\<rparr>"
    by (rule fixed_eqD) (rule upscaleImage_options_fixed)
  then show "\<exists>m r. snd (upscaleImage isAbsolute joinLocal opts sourcePath destPath) =
            opts\<lparr>modelDir := m, rename := r\<rparr>"
    by (simp add: upscaleImage_def Let_def) blast
next
  let ?o = "opts\<lparr>limit := Some (or_default (limit opts) nfiles),
                  parallelFrames := Some (or_default (parallelFrames opts) 1)\<rparr>"
  let ?X = "upscaleImages_options isAbsolute joinLocal nfiles k opts"
  have "?X = ?o\<lparr>modelDir := modelDir ?X, rename := rename ?X\<rparr>"
    unfolding upscaleImages_options_def by (rule funpow_frame)
  then have "?X = opts\<lparr>modelDir := modelDir ?X, rename := rename ?X,
                 limit := Some (or_default (limit opts) nfiles),
                 parallelFrames := Some (or_default (parallelFrames opts) 1)\<rparr>"
    by (cases opts) simp
  then show "\<exists>m r. ?X = opts\<lparr>modelDir := m, rename := r,
                 limit := Some (or_default (limit opts) nfiles),
                 parallelFrames := Some (or_default (parallelFrames opts) 1)\<rparr>"
    by blast
next
  define X where "X = upscaleGIF_options isAbsolute joinLocal k opts"
  define o2 where "o2 = (if cumulative opts = Some True then opts
                         else opts\<lparr>cumulative := Some False\<rparr>)\<lparr>rename := Some []\<rparr>"
  define m p c where "m = modelDir X" and "p = parallelFrames X" and "c = cumulative o2"
  have r: "rename o2 = Some []" by (simp add: o2_def)
  have X: "X = (if scale o2 \<noteq> Some 1
                then (upscaleImage_options isAbsolute joinLocal ^^ k)
                       (o2\<lparr>parallelFrames := Some (or_default (parallelFrames o2) 1)\<rparr>)
                else o2)"
    by (simp add: X_def upscaleGIF_options_def Let_def o2_def)
  have "X = o2\<lparr>modelDir := m, parallelFrames := p\<rparr>"
    unfolding m_def p_def unfolding X by (rule schedule_options_frame [OF r])
  moreover have "o2 = opts\<lparr>rename := Some [], cumulative := c\<rparr>"
    unfolding c_def by (cases opts) (simp add: o2_def)
  ultimately have "X = opts\<lparr>rename := Some [], cumulative := c\<rparr>\<lparr>modelDir := m, parallelFrames := p\<rparr>"
    by simp
  also have "\<dots> = opts\<lparr>modelDir := m, rename := Some [], parallelFrames := p, cumulative := c\<rparr>"
    by (cases opts) simp
  finally show "\<exists>m p c. upscaleGIF_options isAbsolute joinLocal k opts =
       opts\<lparr>modelDir := m, rename := Some [], parallelFrames := p, cumulative := c\<rparr>"
    unfolding X_def by blast
next
  define X where "X = upscaleVideo_options isAbsolute joinLocal probed k opts"
  define o2 where "o2 = (case framerate opts of
                  None \<Rightarrow> opts\<lparr>framerate := Some probed\<rparr>
                | Some r \<Rightarrow> if r = 0 then opts\<lparr>framerate := Some probed\<rparr> else opts)
                \<lparr>rename := Some []\<rparr>"
  define o3 where "o3 = (if scale o2 \<noteq> Some 1
                then (upscaleImage_options isAbsolute joinLocal ^^ k)
                       (o2\<lparr>parallelFrames := Some (or_default (parallelFrames o2) 1)\<rparr>)
                else o2)"
  define m p s r f where "m = modelDir o3" and "p = parallelFrames o3" and "s = speed X"
    and "r = reverse X" and "f = framerate o2"
  have rn: "rename o2 = Some []" by (simp add: o2_def)
  have o3: "o3 = o2\<lparr>modelDir := m, parallelFrames := p\<rparr>"
    unfolding m_def p_def unfolding o3_def by (rule schedule_options_frame [OF rn])
  have o2: "o2 = opts\<lparr>rename := Some [], framerate := f\<rparr>"
    unfolding f_def by (cases opts) (simp add: o2_def split: option.splits)
  have X: "X = (let o4 = (case speed o3 of
                  None \<Rightarrow> o3\<lparr>speed := Some 1\<rparr>
                | Some sp \<Rightarrow> if sp = 0 then o3\<lparr>speed := Some 1\<rparr> else o3)
      in if reverse o4 = Some True then o4 else o4\<lparr>reverse := Some False\<rparr>)"
    by (simp only: X_def upscaleVideo_options_def Let_def o2_def o3_def)
  have "X = o3\<lparr>speed := s, reverse := r\<rparr>"
    unfolding s_def r_def unfolding X by (cases o3) (simp add: Let_def split: option.splits)
  with o3 o2 have "X = opts\<lparr>rename := Some [], framerate := f\<rparr>
       \<lparr>modelDir := m, parallelFrames := p\<rparr>\<lparr>speed := s, reverse := r\<rparr>"
    by simp
  also have "\<dots> = opts\<lparr>modelDir := m, rename := Some [], parallelFrames := p, speed := s,
       reverse := r, framerate := f\<rparr>"
    by (cases opts) simp
  finally show "\<exists>m p s r f. upscaleVideo_options isAbsolute joinLocal probed k opts =
       opts\<lparr>modelDir := m, rename := Some [], parallelFrames := p,
       speed := s, reverse := r, framerate := f\<rparr>"
    unfolding X_def by blast
qed

text \<open>
  Claim C9 as stated fails: \<open>upscaleGIF\<close> called with \<open>{scale: 2, rename: "2x"}\<close> and one
  dispatched frame leaves \<open>rename\<close> empty, \<open>parallelFrames\<close> 1 and \<open>cumulative\<close> false in
  the caller's object.
\<close>

theorem options_written_counterexample:
  "upscaleGIF_options all_absolute join_unused 1 (no_options\<lparr>scale := Some 2, rename := Some ''2x''\<rparr>) =
     no_options\<lparr>scale := Some 2, rename := Some [], parallelFrames := Some 1,
                cumulative := Some False\<rparr> \<and>
   rename (upscaleGIF_options all_absolute join_unused 1
             (no_options\<lparr>scale := Some 2, rename := Some ''2x''\<rparr>)) \<noteq>
     rename (no_options\<lparr>scale := Some 2, rename := Some ''2x''\<rparr>)"
  by (simp add: upscaleGIF_options_def upscaleImage_options_def or_default_def no_options_def)

section \<open>Properties of the adapter, the workspace and the exit paths\<close>

text \<open>
  Claim C8, as the code has it. With a scale of exactly 1, the scheduling blocks of
  \<open>upscaleGIF\<close> and \<open>upscaleVideo\<close> dispatch no frame, call no progress callback, and hand
  the frame list on unchanged. \<open>upscaleImage\<close> has no such bypass: for a single image
  with scale 1 it starts the converter, once, with \<open>--scale-ratio 1\<close>.
\<close>

theorem scale_one_skips_frame_scheduler:
  assumes "scale opts = Some 1"
  shows "upscaleGIF_schedule opts progress out settle frameArray =
           Some \<lparr>cancel = False, counter = 0, retArray = frameArray, calls = [], events = []\<rparr> \<and>
         upscaleVideo_schedule opts progress out settle frameArray =
           Some \<lparr>cancel = False, counter = 0, retArray = frameArray, calls = [], events = []\<rparr> \<and>
         length (fst (upscaleImage isAbsolute joinLocal opts sourcePath destPath)) = 1 \<and>
         NumArg ''--scale-ratio'' 1 \<in>
           set (hd (fst (upscaleImage isAbsolute joinLocal opts sourcePath destPath)))"
proof -
  let ?o = "upscaleImage_options isAbsolute joinLocal opts"
  from assms have "scale ?o = Some 1"
    by (simp add: upscaleImage_options_def Let_def split: option.splits)
  then have "NumArg ''--scale-ratio'' 1 \<in> set (upscaleImage_command ?o sourcePath destPath)"
    by (rule scale_ratio_flag)
  with assms show ?thesis
    by (simp add: upscaleGIF_schedule_def upscaleVideo_schedule_def upscaleImage_def Let_def)
qed

text \<open>Three frames, and one image, at scale 1.\<close>

theorem scale_one_skips_frame_scheduler_witness:
  "scale (no_options\<lparr>scale := Some 1\<rparr>) = Some 1 \<and>
   upscaleGIF_schedule (no_options\<lparr>scale := Some 1\<rparr>) (Some never_stop) id in_order
       [''f0'', ''f1'', ''f2''] =
     Some \<lparr>cancel = False, counter = 0, retArray = [''f0'', ''f1'', ''f2''], calls = [],
           events = []\<rparr> \<and>
   fst (upscaleImage all_absolute join_unused (no_options\<lparr>scale := Some 1\<rparr>)
          ''in.png'' ''out/in2x.png'') =
     [[StrArg ''-i'' ''in.png'', StrArg ''-o'' ''out/in2x.png'', Flag ''-s'',
       NumArg ''--scale-ratio'' 1]]"
proof -
  have h: "scale (no_options\<lparr>scale := Some 1\<rparr>) = Some 1" by simp
  show ?thesis
    using scale_one_skips_frame_scheduler [OF h, of "Some never_stop" id in_order
        "[''f0'', ''f1'', ''f2'']" all_absolute join_unused "''in.png''" "''out/in2x.png''"]
    by (simp add: upscaleImage_def upscaleImage_options_def upscaleImage_command_def
        num_flag_def bool_flag_def no_options_def)
qed

text \<open>
  Claim C8 as stated fails for a single image: at scale 1 the work step is not skipped,
  \<open>upscaleImage\<close> runs the converter on the image.
\<close>

theorem single_image_scale_one_counterexample:
  "fst (upscaleImage all_absolute join_unused (no_options\<lparr>scale := Some 1\<rparr>)
          ''in.png'' ''out/in2x.png'') =
     [[StrArg ''-i'' ''in.png'', StrArg ''-o'' ''out/in2x.png'', Flag ''-s'',
       NumArg ''--scale-ratio'' 1]] \<and>
   fst (upscaleImage all_absolute join_unused (no_options\<lparr>scale := Some 1\<rparr>)
          ''in.png'' ''out/in2x.png'') \<noteq> []"
  by (simp add: upscaleImage_def upscaleImage_options_def upscaleImage_command_def
      num_flag_def bool_flag_def no_options_def)


text \<open>
  Claim C7, as the code has it. When its argument is the string \<open>/\<close> or the string \<open>./\<close>,
  \<open>removeDirectory\<close> returns without touching the file system and without raising. The
  test is on the argument as written, before any path resolution.
\<close>

theorem removeDirectory_guard:
  assumes "dir = ''/'' \<or> dir = ''./''"
  shows "removeDirectory dir fs = Inr fs"
  using assms by (auto simp: removeDirectory_def)

text \<open>The root path on a file system with one file left in place.\<close>

theorem removeDirectory_guard_witness:
  "(''/'' = ''/'' \<or> ''/'' = ''./'') \<and>
   removeDirectory ''/'' \<lparr>root = [Dir ''home'' [File ''a.png'']], cwd = [''home'']\<rparr> =
     Inr \<lparr>root = [Dir ''home'' [File ''a.png'']], cwd = [''home'']\<rparr>"
proof -
  have h: "''/'' = ''/'' \<or> ''/'' = ''./''" by simp
  show ?thesis
    using removeDirectory_guard [OF h, of "\<lparr>root = [Dir ''home'' [File ''a.png'']], cwd = [''home'']\<rparr>"]
    by simp
qed

text \<open>
  Claim C7 as stated fails: \<open>/.\<close> resolves to the root directory, is not one of the two
  guarded strings, and \<open>removeDirectory\<close> empties the root.
\<close>

theorem removeDirectory_root_counterexample:
  "resolve \<lparr>root = [Dir ''home'' [File ''a.png'']], cwd = [''home'']\<rparr> ''/.'' = Some [] \<and>
   removeDirectory ''/.'' \<lparr>root = [Dir ''home'' [File ''a.png'']], cwd = [''home'']\<rparr> =
     Inr \<lparr>root = [], cwd = [''home'']\<rparr>"
  by (simp add: removeDirectory_def resolve_def)

text \<open>
  Other paths, as the operating system treats them: the working directory written \<open>.\<close>
  is emptied and stays, because \<open>rmdirSync\<close> refuses the path; a path through a missing
  directory does not exist, and nothing is removed; a workspace directory is removed with
  all it holds.
\<close>

lemma removeDirectory_dot:
  "removeDirectory ''.'' \<lparr>root = [Dir ''home'' [File ''a.png'']], cwd = [''home'']\<rparr> =
     Inr \<lparr>root = [Dir ''home'' []], cwd = [''home'']\<rparr>"
  by (simp add: removeDirectory_def resolve_def rmdir_refused_def last_component_def)

lemma removeDirectory_through_missing:
  "removeDirectory ''nope/../out'' \<lparr>root = [Dir ''home'' [Dir ''out'' []]], cwd = [''home'']\<rparr> =
     Inr \<lparr>root = [Dir ''home'' [Dir ''out'' []]], cwd = [''home'']\<rparr>"
  by (simp add: removeDirectory_def resolve_def)

lemma removeDirectory_workspace:
  "removeDirectory ''out/aFrames''
     \<lparr>root = [Dir ''home'' [Dir ''out'' [Dir ''aFrames'' [File ''frame0.jpg'',
                Dir ''upscaled'' [File ''frame0.jpg'']], File ''a.gif'']]], cwd = [''home'']\<rparr> =
     Inr \<lparr>root = [Dir ''home'' [Dir ''out'' [File ''a.gif'']]], cwd = [''home'']\<rparr>"
  by (simp add: removeDirectory_def resolve_def rmdir_refused_def last_component_def)





end
